theory Spec2Isabelle
  imports Main "HOL-Library.Word"
begin

unbundle bit_operations_syntax

section \<open>Common data: bytes, words, faults\<close>

type_synonym byte = "8 word"
type_synonym uint = "32 word"
type_synonym ulong = "64 word"

text \<open>
  Exceptions of the library carry an origin and a message.  Unchecked indexing of a
  \<^verbatim>\<open>std::vector\<close> or \<^verbatim>\<open>std::array\<close> outside its bounds is undefined behaviour in
  C++; the model reports it as the fault \<open>OutOfRange\<close>.  A failed \<^verbatim>\<open>CexAssert\<close> is the
  fault \<open>AssertFailed\<close>.
\<close>

datatype error =
    CryptoSymmetricCipherException string string
  | CryptoKdfException string string
  | AssertFailed string
  | DivisionByZero
  | OutOfRange

text \<open>Sequencing of fallible steps: the first fault or exception ends the computation.\<close>

fun and_then :: "error + 'a \<Rightarrow> ('a \<Rightarrow> error + 'b) \<Rightarrow> error + 'b" where
  "and_then (Inl e) f = Inl e"
| "and_then (Inr x) f = f x"

text \<open>Arithmetic on \<^verbatim>\<open>size_t\<close> (64 bits): subtraction wraps around.\<close>

definition size_t_sub :: "nat \<Rightarrow> nat \<Rightarrow> nat" where
  "size_t_sub a b = (a + 2 ^ 64 - b mod 2 ^ 64) mod 2 ^ 64"

text \<open>
  \<^verbatim>\<open>std::vector::resize(n)\<close>: the first \<open>n\<close> elements are kept, new elements are
  zero.
\<close>

definition resize :: "byte list \<Rightarrow> nat \<Rightarrow> byte list" where
  "resize v n = take n v @ replicate (n - length v) 0"

text \<open>
  \<^verbatim>\<open>MemUtils.h\<close> is not among the sources.  \<^verbatim>\<open>MemUtils::Copy(Input, InOffset, Output,
  OutOffset, Length)\<close> is taken as the copy of \<open>Length\<close> bytes from
  \<open>Input[InOffset ..]\<close> to \<open>Output[OutOffset ..]\<close>; a range outside either vector is
  a fault.
\<close>

definition Copy :: "byte list \<Rightarrow> nat \<Rightarrow> byte list \<Rightarrow> nat \<Rightarrow> nat \<Rightarrow> error + byte list" where
  "Copy Input InOffset Output OutOffset Length =
     (if Length = 0 then Inr Output
      else if InOffset + Length \<le> length Input \<and> OutOffset + Length \<le> length Output
      then Inr (take OutOffset Output @ take Length (drop InOffset Input)
                  @ drop (OutOffset + Length) Output)
      else Inl OutOfRange)"

text \<open>
  \<^verbatim>\<open>SymmetricKeySize.h\<close> is not among the sources.  A \<^verbatim>\<open>SymmetricKeySize\<close> is the
  triple of key, nonce and info sizes given to its constructor, and
  \<^verbatim>\<open>SymmetricKeySize::Contains(sizes, keySize)\<close> holds when some entry has that key
  size.
\<close>

record SymmetricKeySize =
  KeySize :: nat
  NonceSize :: nat
  InfoSize :: nat

definition Contains :: "SymmetricKeySize list \<Rightarrow> nat \<Rightarrow> bool" where
  "Contains sizes keySize = list_ex (\<lambda>s. KeySize s = keySize) sizes"

text \<open>
  The digest classes (\<^verbatim>\<open>IDigest\<close>, \<^verbatim>\<open>DigestFromName\<close>) are not among the sources.  A
  digest is represented by its block size, its output size, the size of its padding
  (\<^verbatim>\<open>DigestFromName::GetPaddingSize\<close>) and the function computed by a sequence of
  \<^verbatim>\<open>Update\<close> calls followed by \<^verbatim>\<open>Finalize\<close> on the concatenated input.
\<close>

record IDigest =
  BlockSize :: nat
  DigestSize :: nat
  PaddingSize :: nat
  Compute :: "byte list \<Rightarrow> byte list"


section \<open>CSG: LeftEncode (CSG.h)\<close>

text \<open>
  \<^verbatim>\<open>for (v = Value, n = 0; v && (n < sizeof(size_t)); ++n, v >>= 8);\<close>
  with \<^verbatim>\<open>size_t\<close> of 64 bits.
\<close>

function LeftEncode_count :: "ulong \<Rightarrow> nat \<Rightarrow> nat" where
  "LeftEncode_count v n =
     (if v \<noteq> 0 \<and> n < 8 then LeftEncode_count (drop_bit 8 v) (n + 1) else n)"
  by pat_completeness auto
termination
  by (relation "measure (\<lambda>(v, n). 8 - n)") auto

text \<open>
  \<^verbatim>\<open>for (i = 1; i <= n; ++i) Buffer[Offset + i] = (uint8_t)(Value >> (8 * (n - i)));\<close>
\<close>

function LeftEncode_fill :: "byte list \<Rightarrow> nat \<Rightarrow> ulong \<Rightarrow> nat \<Rightarrow> nat \<Rightarrow> byte list" where
  "LeftEncode_fill Buffer Offset Value n i =
     (if i \<le> n
      then LeftEncode_fill (Buffer[Offset + i := ucast (drop_bit (8 * (n - i)) Value)])
             Offset Value n (i + 1)
      else Buffer)"
  by pat_completeness auto
termination
  by (relation "measure (\<lambda>(Buffer, Offset, Value, n, i). n + 1 - i)") auto

text \<open>
  The function returns the updated buffer and the number of bytes written.  It writes
  the positions \<open>Offset .. Offset + n\<close>; the buffer must hold them.
\<close>

definition LeftEncode :: "byte list \<Rightarrow> nat \<Rightarrow> ulong \<Rightarrow> error + (byte list \<times> nat)" where
  "LeftEncode Buffer Offset Value =
     (let n0 = LeftEncode_count Value 0;
          n = (if n0 = 0 then 1 else n0)
      in if Offset + n < length Buffer
         then Inr ((LeftEncode_fill Buffer Offset Value n 1)[Offset := of_nat n], n + 1)
         else Inl OutOfRange)"

text \<open>
  The encoding in the words of the specification: the minimal big-endian byte
  representation of \<open>x\<close> (at least one byte), preceded by its length in bytes.
\<close>

fun be_bytes_min :: "nat \<Rightarrow> byte list" where
  "be_bytes_min x = (if x < 256 then [of_nat x] else be_bytes_min (x div 256) @ [of_nat (x mod 256)])"

declare be_bytes_min.simps [simp del]

definition left_encode_spec :: "nat \<Rightarrow> byte list" where
  "left_encode_spec x = of_nat (length (be_bytes_min x)) # be_bytes_min x"

text \<open>Reading a byte sequence as a big-endian number.\<close>

fun be_decode :: "byte list \<Rightarrow> nat" where
  "be_decode [] = 0"
| "be_decode (b # bs) = unat b * 256 ^ length bs + be_decode bs"

declare LeftEncode_count.simps [simp del] LeftEncode_fill.simps [simp del]

section \<open>KDF2 (KDF2.cpp)\<close>

record KDF2 =
  m_msgDigest :: IDigest
  m_blockSize :: nat
  m_hashSize :: nat
  m_isInitialized_KDF2 :: bool
  m_kdfCounter :: nat
  m_kdfKey :: "byte list"
  m_kdfSalt :: "byte list"
  m_legalKeySizes_KDF2 :: "SymmetricKeySize list"

text \<open>\<^verbatim>\<open>LoadState\<close>; \<^verbatim>\<open>sizeof(uint)\<close> is 4.\<close>

definition LoadState_KDF2 :: "KDF2 \<Rightarrow> KDF2" where
  "LoadState_KDF2 s =
     (let saltLen = size_t_sub (m_blockSize s) (PaddingSize (m_msgDigest s) + 4)
      in s\<lparr>m_legalKeySizes_KDF2 :=
             [\<lparr>KeySize = m_hashSize s, NonceSize = 0, InfoSize = 0\<rparr>,
              \<lparr>KeySize = m_blockSize s, NonceSize = saltLen, InfoSize = 0\<rparr>,
              \<lparr>KeySize = m_blockSize s, NonceSize = saltLen, InfoSize = m_blockSize s\<rparr>]\<rparr>)"

text \<open>The constructor \<^verbatim>\<open>KDF2(IDigest* Digest)\<close> with a digest that is not null.\<close>

definition KDF2_new :: "IDigest \<Rightarrow> KDF2" where
  "KDF2_new Digest =
     LoadState_KDF2
       \<lparr>m_msgDigest = Digest, m_blockSize = BlockSize Digest, m_hashSize = DigestSize Digest,
        m_isInitialized_KDF2 = False, m_kdfCounter = 1, m_kdfKey = [], m_kdfSalt = [],
        m_legalKeySizes_KDF2 = []\<rparr>"

definition Reset_KDF2 :: "KDF2 \<Rightarrow> KDF2" where
  "Reset_KDF2 s = s\<lparr>m_kdfCounter := 1, m_kdfKey := [], m_kdfSalt := [],
                    m_isInitialized_KDF2 := False\<rparr>"

text \<open>\<^verbatim>\<open>Initialize(const std::vector<byte> &Key)\<close>\<close>

definition Initialize_KDF2 :: "KDF2 \<Rightarrow> byte list \<Rightarrow> error + KDF2" where
  "Initialize_KDF2 s0 Key =
     (if length Key < m_hashSize s0
      then Inl (CryptoKdfException ''KDF2:Initialize''
                  ''Salt size is too small; must be a minumum of digest return size!'')
      else
        let s = (if m_isInitialized_KDF2 s0 then Reset_KDF2 s0 else s0)
        in if length Key \<le> m_blockSize s
           then
             and_then (Copy Key 0 (resize (m_kdfKey s) (m_blockSize s)) 0 (length Key))
               (\<lambda>k. Inr (s\<lparr>m_kdfKey := k, m_isInitialized_KDF2 := True\<rparr>))
           else
             and_then (Copy Key 0 (resize (m_kdfKey s) (m_blockSize s)) 0 (m_blockSize s))
               (\<lambda>k. let salt0 = resize (m_kdfSalt s) (length Key - m_blockSize s)
                    in and_then (Copy Key (m_blockSize s) salt0 0 (length salt0))
                         (\<lambda>salt. Inr (s\<lparr>m_kdfKey := k, m_kdfSalt := salt,
                                       m_isInitialized_KDF2 := True\<rparr>))))"

text \<open>\<^verbatim>\<open>Initialize(Key, Salt)\<close> and \<^verbatim>\<open>Initialize(Key, Salt, Info)\<close>; \<^verbatim>\<open>MIN_SALTLEN\<close> is 4.\<close>

definition Initialize_KDF2_salt :: "KDF2 \<Rightarrow> byte list \<Rightarrow> byte list \<Rightarrow> error + KDF2" where
  "Initialize_KDF2_salt s0 Key Salt =
     (if length Key < m_hashSize s0
      then Inl (CryptoKdfException ''KDF2:Initialize''
                  ''Key size is too small; must be a minumum of digest return size!'')
      else if length Salt < 4
      then Inl (CryptoKdfException ''KDF2:Initialize''
                  ''Salt size is too small; must be a minumum of 4 bytes!'')
      else
        let s = (if m_isInitialized_KDF2 s0 then Reset_KDF2 s0 else s0)
        in and_then (Copy Key 0 (resize (m_kdfKey s) (length Key)) 0 (length Key))
             (\<lambda>k. if length Salt > 0
                  then and_then (Copy Salt 0 (resize (m_kdfSalt s) (length Salt)) 0 (length Salt))
                         (\<lambda>salt. Inr (s\<lparr>m_kdfKey := k, m_kdfSalt := salt,
                                       m_isInitialized_KDF2 := True\<rparr>))
                  else Inr (s\<lparr>m_kdfKey := k, m_isInitialized_KDF2 := True\<rparr>)))"

definition Initialize_KDF2_salt_info ::
  "KDF2 \<Rightarrow> byte list \<Rightarrow> byte list \<Rightarrow> byte list \<Rightarrow> error + KDF2" where
  "Initialize_KDF2_salt_info s0 Key Salt Info =
     (if length Key < m_hashSize s0
      then Inl (CryptoKdfException ''KDF2:Initialize''
                  ''Key size is too small; must be a minumum of digest return size!'')
      else if length Salt < 4
      then Inl (CryptoKdfException ''KDF2:Initialize''
                  ''Salt size is too small; must be a minumum of 4 bytes!'')
      else
        let s = (if m_isInitialized_KDF2 s0 then Reset_KDF2 s0 else s0)
        in and_then (Copy Key 0 (resize (m_kdfKey s) (length Key)) 0 (length Key))
             (\<lambda>k. if length Salt > 0
                  then and_then (Copy Salt 0 (resize (m_kdfSalt s) (length Salt + length Info))
                                   0 (length Salt))
                         (\<lambda>salt1. and_then
                              (if length Info > 0
                               then Copy Info 0 salt1 (length Salt) (length Info)
                               else Inr salt1)
                              (\<lambda>salt. Inr (s\<lparr>m_kdfKey := k, m_kdfSalt := salt,
                                            m_isInitialized_KDF2 := True\<rparr>)))
                  else Inr (s\<lparr>m_kdfKey := k, m_isInitialized_KDF2 := True\<rparr>)))"

text \<open>
  One pass of the \<^verbatim>\<open>do ... while (prcLen != 0)\<close> loop of \<^verbatim>\<open>Expand\<close> hashes the key, the
  four bytes of the counter (most significant first) and, when present, the salt; the
  counter is incremented and at most \<open>m_hashSize\<close> bytes of the hash are copied to the
  output.  \<^verbatim>\<open>Expand\<close> is entered only behind the division by \<open>m_hashSize\<close>, so the loop
  never runs with a hash size of zero.
\<close>

definition counter_bytes :: "nat \<Rightarrow> byte list" where
  "counter_bytes c = [of_nat (c div 2 ^ 24), of_nat (c div 2 ^ 16), of_nat (c div 2 ^ 8), of_nat c]"

definition Expand_hash :: "KDF2 \<Rightarrow> byte list" where
  "Expand_hash s =
     Compute (m_msgDigest s)
       (m_kdfKey s @ counter_bytes (m_kdfCounter s)
          @ (if length (m_kdfSalt s) \<noteq> 0 then m_kdfSalt s else []))"

function Expand_loop :: "KDF2 \<Rightarrow> byte list \<Rightarrow> nat \<Rightarrow> nat \<Rightarrow> error + (KDF2 \<times> byte list)" where
  "Expand_loop s Output OutOffset prcLen =
     (if m_hashSize s = 0 then Inl DivisionByZero
      else
        let hash = Expand_hash s;
            s' = s\<lparr>m_kdfCounter := m_kdfCounter s + 1\<rparr>;
            prcRmd = min (m_hashSize s) prcLen
        in and_then (Copy hash 0 Output OutOffset prcRmd)
             (\<lambda>Output'.
                if prcLen - prcRmd \<noteq> 0
                then Expand_loop s' Output' (OutOffset + prcRmd) (prcLen - prcRmd)
                else Inr (s', Output')))"
  by pat_completeness auto
termination
  by (relation "measure (\<lambda>(s, Output, OutOffset, prcLen). prcLen)") auto

declare Expand_loop.simps [simp del]

text \<open>The results of \<^verbatim>\<open>Expand\<close> and \<^verbatim>\<open>Generate\<close> are the new generator state, the output
  vector and the returned length.\<close>

definition Expand :: "KDF2 \<Rightarrow> byte list \<Rightarrow> nat \<Rightarrow> nat \<Rightarrow> error + (KDF2 \<times> byte list \<times> nat)" where
  "Expand s Output OutOffset Length =
     (if m_hashSize s = 0 then Inl DivisionByZero
      else if m_kdfCounter s + Length div m_hashSize s > 255
      then Inl (CryptoKdfException ''KDF2:Expand''
                  ''Maximum length value is 255 * the digest return size!'')
      else and_then (Expand_loop s Output OutOffset Length)
             (\<lambda>(s', Output'). Inr (s', Output', Length)))"

definition Generate :: "KDF2 \<Rightarrow> byte list \<Rightarrow> error + (KDF2 \<times> byte list \<times> nat)" where
  "Generate s Output =
     (if \<not> m_isInitialized_KDF2 s
      then Inl (AssertFailed ''the generator must be initialized before use'')
      else if \<not> length Output \<noteq> 0
      then Inl (AssertFailed ''the output buffer too small'')
      else if m_hashSize s = 0 then Inl DivisionByZero
      else if m_kdfCounter s + length Output div m_hashSize s > 255
      then Inl (CryptoKdfException ''KDF2:Generate''
                  ''KDF2 may only be used for 255 * HashLen bytes of output'')
      else Expand s Output 0 (length Output))"

definition Generate_range ::
  "KDF2 \<Rightarrow> byte list \<Rightarrow> nat \<Rightarrow> nat \<Rightarrow> error + (KDF2 \<times> byte list \<times> nat)" where
  "Generate_range s Output OutOffset Length =
     (if \<not> m_isInitialized_KDF2 s
      then Inl (AssertFailed ''the generator must be initialized before use'')
      else if \<not> length Output \<noteq> 0
      then Inl (AssertFailed ''the output buffer too small'')
      else if m_hashSize s = 0 then Inl DivisionByZero
      else if m_kdfCounter s + Length div m_hashSize s > 255
      then Inl (CryptoKdfException ''KDF2:Generate''
                  ''KDF2 may only be used for 255 * HashLen bytes of output'')
      else Expand s Output OutOffset Length)"

text \<open>
  The key and salt of a generator are filled only by \<^verbatim>\<open>Initialize\<close>, which also sets
  \<open>m_isInitialized\<close>, and are cleared by \<^verbatim>\<open>Reset\<close>: a generator that is not initialized
  holds neither.
\<close>

definition KDF2_inv :: "KDF2 \<Rightarrow> bool" where
  "KDF2_inv s =
     ((m_isInitialized_KDF2 s \<or> (m_kdfKey s = [] \<and> m_kdfSalt s = []))
      \<and> m_blockSize s = BlockSize (m_msgDigest s) \<and> m_hashSize s = DigestSize (m_msgDigest s))"

text \<open>
  A small digest for concrete evaluation: block size 8, output size 4.
\<close>

definition toy_digest :: IDigest where
  "toy_digest = \<lparr>BlockSize = 8, DigestSize = 4, PaddingSize = 1,
                  Compute = (\<lambda>m. [of_nat (length m), sum_list m, 0, 1])\<rparr>"

section \<open>Byte order utilities (IntUtils.h, MemUtils.h)\<close>

text \<open>
  \<^verbatim>\<open>IntUtils.h\<close> and \<^verbatim>\<open>MemUtils.h\<close> are not among the sources; the functions used by
  the modelled code are taken by their names and by section 2 of the specification
  (endian conversion).  Storing a run of bytes at \<open>Output[OutOffset ..]\<close> needs the
  positions to exist.
\<close>

definition store :: "byte list \<Rightarrow> byte list \<Rightarrow> nat \<Rightarrow> error + byte list" where
  "store bs Output OutOffset =
     (if OutOffset + length bs \<le> length Output
      then Inr (take OutOffset Output @ bs @ drop (OutOffset + length bs) Output)
      else Inl OutOfRange)"

definition Le16ToBytes :: "16 word \<Rightarrow> byte list \<Rightarrow> nat \<Rightarrow> error + byte list" where
  "Le16ToBytes Value Output OutOffset =
     store [ucast Value, ucast (drop_bit 8 Value)] Output OutOffset"

definition Le32ToBytes :: "uint \<Rightarrow> byte list \<Rightarrow> nat \<Rightarrow> error + byte list" where
  "Le32ToBytes Value Output OutOffset =
     store [ucast Value, ucast (drop_bit 8 Value), ucast (drop_bit 16 Value),
            ucast (drop_bit 24 Value)] Output OutOffset"

definition Le64ToBytes :: "ulong \<Rightarrow> byte list \<Rightarrow> nat \<Rightarrow> error + byte list" where
  "Le64ToBytes Value Output OutOffset =
     store [ucast Value, ucast (drop_bit 8 Value), ucast (drop_bit 16 Value),
            ucast (drop_bit 24 Value), ucast (drop_bit 32 Value), ucast (drop_bit 40 Value),
            ucast (drop_bit 48 Value), ucast (drop_bit 56 Value)] Output OutOffset"

definition le32 :: "byte \<Rightarrow> byte \<Rightarrow> byte \<Rightarrow> byte \<Rightarrow> uint" where
  "le32 b0 b1 b2 b3 =
     ucast b0 OR push_bit 8 (ucast b1) OR push_bit 16 (ucast b2) OR push_bit 24 (ucast b3)"

definition LeBytesTo32 :: "byte list \<Rightarrow> nat \<Rightarrow> error + uint" where
  "LeBytesTo32 Input InOffset =
     (if InOffset + 4 \<le> length Input
      then Inr (le32 (Input ! InOffset) (Input ! (InOffset + 1)) (Input ! (InOffset + 2))
                  (Input ! (InOffset + 3)))
      else Inl OutOfRange)"

definition BeBytesTo32 :: "byte list \<Rightarrow> nat \<Rightarrow> uint" where
  "BeBytesTo32 Input InOffset =
     push_bit 24 (ucast (Input ! InOffset))
     OR push_bit 16 (ucast (Input ! (InOffset + 1)))
     OR push_bit 8 (ucast (Input ! (InOffset + 2)))
     OR ucast (Input ! (InOffset + 3))"

definition RotL32 :: "uint \<Rightarrow> nat \<Rightarrow> uint" where
  "RotL32 Value Shift = word_rotl Shift Value"

text \<open>
  The size in bytes of an integer type, and the bytes of a value in memory.  The order
  of the bytes in memory is that of the host; the conversion functions
  (\<^verbatim>\<open>Le16ToBytes\<close>, \<^verbatim>\<open>LeToBlock\<close>, ...) give little-endian order on every host, a raw
  memory copy (\<^verbatim>\<open>MemUtils::Copy\<close>, \<^verbatim>\<open>MemUtils::CopyFromValue\<close>) gives the host's
  order.
\<close>

datatype endian = LittleEndian | BigEndian

definition sizeof :: "'a::len word \<Rightarrow> nat" where
  "sizeof v = LENGTH('a) div 8"

definition le_bytes :: "'a::len word \<Rightarrow> byte list" where
  "le_bytes v = map (\<lambda>i. ucast (drop_bit (8 * i) v)) [0..<sizeof v]"

definition native_bytes :: "endian \<Rightarrow> 'a::len word \<Rightarrow> byte list" where
  "native_bytes host v = (case host of LittleEndian \<Rightarrow> le_bytes v | BigEndian \<Rightarrow> rev (le_bytes v))"

definition CopyFromValue ::
  "endian \<Rightarrow> 'a::len word \<Rightarrow> byte list \<Rightarrow> nat \<Rightarrow> nat \<Rightarrow> error + byte list" where
  "CopyFromValue host Value Output OutOffset Length =
     (if Length \<le> sizeof Value
      then store (take Length (native_bytes host Value)) Output OutOffset
      else Inl OutOfRange)"

text \<open>
  \<^verbatim>\<open>LeToBlock(Input, InOffset, Output, OutOffset, Length)\<close> converts the elements
  \<open>Input[InOffset ..]\<close> that make up \<open>Length\<close> bytes; \<^verbatim>\<open>MemUtils::Copy\<close> on an array of
  integers copies the same number of bytes from memory.
\<close>

definition LeToBlock ::
  "'a::len word list \<Rightarrow> nat \<Rightarrow> byte list \<Rightarrow> nat \<Rightarrow> nat \<Rightarrow> error + byte list" where
  "LeToBlock Input InOffset Output OutOffset Length =
     (let n = Length div (LENGTH('a) div 8)
      in if Length = 0 then Inr Output
         else if InOffset + n \<le> length Input
         then store (concat (map le_bytes (take n (drop InOffset Input)))) Output OutOffset
         else Inl OutOfRange)"

definition Copy_array ::
  "endian \<Rightarrow> 'a::len word list \<Rightarrow> nat \<Rightarrow> byte list \<Rightarrow> nat \<Rightarrow> nat \<Rightarrow> error + byte list" where
  "Copy_array host Input InOffset Output OutOffset Length =
     (let n = Length div (LENGTH('a) div 8)
      in if Length = 0 then Inr Output
         else if InOffset + n \<le> length Input
         then store (concat (map (native_bytes host) (take n (drop InOffset Input)))) Output OutOffset
         else Inl OutOfRange)"

section \<open>StreamWriter (StreamWriter.h)\<close>

record StreamWriter =
  m_streamPosition :: nat
  m_streamState :: "byte list"

text \<open>The stream grows when the write would pass its end.\<close>

definition grow :: "StreamWriter \<Rightarrow> nat \<Rightarrow> byte list" where
  "grow w n =
     (if m_streamPosition w + n > length (m_streamState w)
      then resize (m_streamState w) (m_streamPosition w + n)
      else m_streamState w)"

text \<open>\<^verbatim>\<open>template <typename T> void Write(T Value)\<close>\<close>

definition Write :: "endian \<Rightarrow> StreamWriter \<Rightarrow> 'a::len word \<Rightarrow> error + StreamWriter" where
  "Write host w Value =
     (let VALSZE = sizeof Value;
          st = grow w VALSZE
      in and_then
           (if VALSZE = 8 then Le64ToBytes (ucast Value) st (m_streamPosition w)
            else if VALSZE = 4 then Le32ToBytes (ucast Value) st (m_streamPosition w)
            else if VALSZE = 2 then Le16ToBytes (ucast Value) st (m_streamPosition w)
            else CopyFromValue host Value st (m_streamPosition w) 1)
           (\<lambda>st'. Inr \<lparr>m_streamPosition = m_streamPosition w + VALSZE, m_streamState = st'\<rparr>))"

text \<open>
  \<^verbatim>\<open>template <typename Array> void Write(const Array &Input, size_t InOffset, size_t
  Elements)\<close>.  The block with \<^verbatim>\<open>MemUtils::Copy\<close> follows the \<^verbatim>\<open>if\<close> without an
  \<^verbatim>\<open>else\<close>: it runs for every element size.
\<close>

definition Write_array ::
  "endian \<Rightarrow> StreamWriter \<Rightarrow> 'a::len word list \<Rightarrow> nat \<Rightarrow> nat \<Rightarrow> error + StreamWriter" where
  "Write_array host w Input InOffset Elements =
     (let INPSZE = (LENGTH('a) div 8) * Elements;
          st = grow w INPSZE
      in and_then
           (if LENGTH('a) div 8 > 1
            then LeToBlock Input InOffset st (m_streamPosition w) INPSZE
            else Inr st)
           (\<lambda>st1. and_then (Copy_array host Input InOffset st1 (m_streamPosition w) INPSZE)
              (\<lambda>st2. Inr \<lparr>m_streamPosition = m_streamPosition w + INPSZE,
                            m_streamState = st2\<rparr>)))"

text \<open>\<^verbatim>\<open>template <typename T> void Write(const std::vector<T> &Input)\<close>\<close>

definition Write_vector ::
  "StreamWriter \<Rightarrow> 'a::len word list \<Rightarrow> error + StreamWriter" where
  "Write_vector w Input =
     (let INPSZE = length Input * (LENGTH('a) div 8);
          st = grow w INPSZE
      in and_then (LeToBlock Input 0 st (m_streamPosition w) INPSZE)
           (\<lambda>st'. Inr \<lparr>m_streamPosition = m_streamPosition w + INPSZE, m_streamState = st'\<rparr>))"

text \<open>
  Little-endian order in the words of the specification: the bytes of the number, least
  significant first.
\<close>

definition le_bytes_spec :: "'a::len word \<Rightarrow> byte list" where
  "le_bytes_spec v = map (\<lambda>i. of_nat (unat v div 256 ^ i mod 256)) [0..<LENGTH('a) div 8]"

section \<open>SHX (SHX.cpp)\<close>

subsection \<open>Parts taken as parameters\<close>

text \<open>
  \<^verbatim>\<open>Serpent.h\<close> and \<^verbatim>\<open>SHX.h\<close> are not among the sources.  The S-boxes
  \<^verbatim>\<open>Sb0 .. Sb7\<close>, their inverses \<^verbatim>\<open>Ib0 .. Ib7\<close>, the linear transform, its inverse and
  the constant \<^verbatim>\<open>PHI\<close> are parameters of the model: \<open>Sb P i\<close> stands for
  \<^verbatim>\<open>Sb\<close>\<open>i\<close>.  Each acts on the four state words \<open>(R0, R1, R2, R3)\<close>.
\<close>

type_synonym quad = "uint \<times> uint \<times> uint \<times> uint"

record Serpent =
  Sb :: "nat \<Rightarrow> quad \<Rightarrow> quad"
  Ib :: "nat \<Rightarrow> quad \<Rightarrow> quad"
  LinearTransform :: "quad \<Rightarrow> quad"
  InverseTransform :: "quad \<Rightarrow> quad"
  PHI :: uint

text \<open>
  \<^verbatim>\<open>HKDF.h\<close> is not among the sources.  The two ways in which \<^verbatim>\<open>SecureExpand\<close> sets up
  the generator are recorded as data: \<^verbatim>\<open>Initialize(Key, Salt, Info)\<close>, which extracts
  and then expands, and \<^verbatim>\<open>Initialize(Key)\<close>, which only expands, after \<^verbatim>\<open>Info()\<close>
  was assigned or not.  The generator itself is a parameter: \<open>hkdf d setup i\<close> is byte
  \<open>i\<close> of the output of a generator over the digest \<open>d\<close> set up in this way.
\<close>

datatype HKDF_setup =
    Extract_Expand "byte list" "byte list" "byte list"
  | Expand_only "byte list option" "byte list"

type_synonym HKDF = "IDigest \<Rightarrow> HKDF_setup \<Rightarrow> nat \<Rightarrow> byte"

text \<open>The key container \<^verbatim>\<open>ISymmetricKey\<close> with its \<^verbatim>\<open>Key()\<close>, \<^verbatim>\<open>Nonce()\<close> and \<^verbatim>\<open>Info()\<close>.\<close>

record SymmetricKey =
  sk_Key :: "byte list"
  sk_Nonce :: "byte list"
  sk_Info :: "byte list"

subsection \<open>State and construction\<close>

text \<open>
  \<open>m_kdfEngine\<close> is \<open>None\<close> for the null pointer; both constructors make
  \<^verbatim>\<open>m_kdfEngineType == Digests::None\<close> hold exactly then.
\<close>

record SHX =
  m_cprKeySize :: nat
  m_expKey :: "uint list"
  m_kdfEngine :: "IDigest option"
  m_kdfInfo :: "byte list"
  m_kdfInfoMax :: nat
  m_kdfKeySize :: nat
  m_isEncryption :: bool
  m_isInitialized :: bool
  m_legalKeySizes :: "SymmetricKeySize list"
  m_legalRounds :: "nat list"
  m_rndCount :: nat

definition DEF_DSTINFO :: "byte list" where
  "DEF_DSTINFO = map (of_nat \<circ> of_char) ''SHX version 1 information string''"

definition BLOCK_SIZE :: nat where
  "BLOCK_SIZE = 16"

definition LoadState :: "SHX \<Rightarrow> SHX" where
  "LoadState s =
     (case m_kdfEngine s of
        None \<Rightarrow>
          s\<lparr>m_legalRounds := [32, 40],
            m_legalKeySizes :=
              [\<lparr>KeySize = 16, NonceSize = 16, InfoSize = 0\<rparr>,
               \<lparr>KeySize = 24, NonceSize = 16, InfoSize = 0\<rparr>,
               \<lparr>KeySize = 32, NonceSize = 16, InfoSize = 0\<rparr>,
               \<lparr>KeySize = 64, NonceSize = 16, InfoSize = 0\<rparr>]\<rparr>
      | Some d \<Rightarrow>
          let kdfKeySize = BlockSize d;
              kdfInfoMax = size_t_sub kdfKeySize (PaddingSize d + 1)
          in s\<lparr>m_legalRounds := [32, 40, 48, 56, 64],
               m_kdfKeySize := kdfKeySize,
               m_kdfInfoMax := kdfInfoMax,
               m_legalKeySizes :=
                 [\<lparr>KeySize = DigestSize d, NonceSize = BLOCK_SIZE, InfoSize = kdfInfoMax\<rparr>,
                  \<lparr>KeySize = kdfKeySize, NonceSize = BLOCK_SIZE, InfoSize = kdfInfoMax\<rparr>,
                  \<lparr>KeySize = kdfKeySize * 2, NonceSize = BLOCK_SIZE, InfoSize = kdfInfoMax\<rparr>]\<rparr>)"

text \<open>
  The constructors; \<^verbatim>\<open>MIN_ROUNDS\<close> and \<^verbatim>\<open>MAX_ROUNDS\<close> are 32 and 64, as the message of
  the exception says.
\<close>

definition SHX_new :: "IDigest option \<Rightarrow> nat \<Rightarrow> error + SHX" where
  "SHX_new Digest Rounds =
     (if Rounds \<le> 64 \<and> Rounds \<ge> 32 \<and> Rounds mod 8 = 0
      then Inr (LoadState
             \<lparr>m_cprKeySize = 0, m_expKey = [], m_kdfEngine = Digest, m_kdfInfo = DEF_DSTINFO,
              m_kdfInfoMax = 0, m_kdfKeySize = 0, m_isEncryption = False,
              m_isInitialized = False, m_legalKeySizes = [], m_legalRounds = [],
              m_rndCount = Rounds\<rparr>)
      else Inl (CryptoSymmetricCipherException ''SHX:CTor''
                  ''Invalid rounds size! Sizes supported are 32, 40, 48, 56, 64.''))"

definition Rounds :: "SHX \<Rightarrow> nat" where
  "Rounds s = m_rndCount s"

definition LegalKeySizes :: "SHX \<Rightarrow> SymmetricKeySize list" where
  "LegalKeySizes s = m_legalKeySizes s"

subsection \<open>Key schedule\<close>

text \<open>
  \<^verbatim>\<open>SecureExpand\<close>: the set-up of the generator, and the expanded key read from its
  output as little-endian words.
\<close>

definition SecureExpand_setup :: "IDigest \<Rightarrow> byte list \<Rightarrow> byte list \<Rightarrow> HKDF_setup" where
  "SecureExpand_setup d kdfInfo Key =
     (if length Key > BlockSize d
      then
        let kdfKeySize = BlockSize d;
            kdfKey = take kdfKeySize Key;
            saltSize = length Key - kdfKeySize;
            kdfSalt = take saltSize (drop kdfKeySize Key)
        in Extract_Expand kdfKey kdfSalt kdfInfo
      else Expand_only (if length kdfInfo \<noteq> 0 then Some kdfInfo else None) Key)"

definition SecureExpand :: "HKDF \<Rightarrow> SHX \<Rightarrow> IDigest \<Rightarrow> byte list \<Rightarrow> SHX" where
  "SecureExpand hkdf s d Key =
     (let keySize = 4 * (m_rndCount s + 1);
          keyBytes = keySize * 4;
          s' = (if length Key > BlockSize d then s\<lparr>m_kdfKeySize := BlockSize d\<rparr> else s);
          rawKey = map (hkdf d (SecureExpand_setup d (m_kdfInfo s) Key)) [0..<keyBytes]
      in s'\<lparr>m_expKey :=
             map (\<lambda>i. le32 (rawKey ! (i * 4)) (rawKey ! (i * 4 + 1)) (rawKey ! (i * 4 + 2))
                         (rawKey ! (i * 4 + 3)))
               [0..<keySize]\<rparr>)"

text \<open>
  \<^verbatim>\<open>StandardExpand\<close> is private and is reached through \<^verbatim>\<open>Initialize\<close> only, which in
  this mode admits keys of 16, 24, 32 and 64 bytes; for these every index below is in
  range.  Step 1: the key is copied as big-endian words from its end.
\<close>

function StandardExpand_copy :: "byte list \<Rightarrow> nat \<Rightarrow> nat \<Rightarrow> uint list \<Rightarrow> uint list \<times> nat" where
  "StandardExpand_copy Key offset index Wp =
     (if offset > 0
      then StandardExpand_copy Key (offset - 4) (index + 1)
             (Wp[index := BeBytesTo32 Key (offset - 4)])
      else (Wp, index))"
  by pat_completeness auto
termination
  by (relation "measure (\<lambda>(Key, offset, index, Wp). offset)") auto

text \<open>
  The loops with the rotating polynomial.  In the loops over \<open>Wp\<close> the counter enters
  as \<open>i - 8\<close> and \<open>i - 16\<close>, in the loops over \<open>Wk\<close> as \<open>i\<close>: \<open>c\<close> is what is subtracted.
\<close>

function StandardExpand_poly8 :: "uint \<Rightarrow> nat \<Rightarrow> uint list \<Rightarrow> nat \<Rightarrow> nat \<Rightarrow> uint list" where
  "StandardExpand_poly8 phi c W i n =
     (if i < n
      then StandardExpand_poly8 phi c
             (W[i := RotL32 (W ! (i - 8) XOR W ! (i - 5) XOR W ! (i - 3) XOR W ! (i - 1)
                             XOR phi XOR of_nat (i - c)) 11])
             (i + 1) n
      else W)"
  by pat_completeness auto
termination
  by (relation "measure (\<lambda>(phi, c, W, i, n). n - i)") auto

function StandardExpand_poly16 :: "uint \<Rightarrow> nat \<Rightarrow> uint list \<Rightarrow> nat \<Rightarrow> nat \<Rightarrow> uint list" where
  "StandardExpand_poly16 phi c W i n =
     (if i < n
      then StandardExpand_poly16 phi c
             (W[i := RotL32 (W ! (i - 16) XOR W ! (i - 13) XOR W ! (i - 11) XOR W ! (i - 10)
                             XOR W ! (i - 8) XOR W ! (i - 5) XOR W ! (i - 3) XOR W ! (i - 1)
                             XOR phi XOR of_nat (i - c)) 11])
             (i + 1) n
      else W)"
  by pat_completeness auto
termination
  by (relation "measure (\<lambda>(phi, c, W, i, n). n - i)") auto

text \<open>The prekey \<open>Wp\<close> after steps 1 and 2, and the words \<open>Wk\<close> after step 3.\<close>

definition StandardExpand_Wp :: "uint \<Rightarrow> byte list \<Rightarrow> uint list" where
  "StandardExpand_Wp phi Key =
     (let padSize = (if length Key < 32 then 16 else length Key div 2);
          (Wp, index) = StandardExpand_copy Key (length Key) 0 (replicate padSize 0);
          Wp = (if index < 8 then Wp[index := 1] else Wp)
      in if padSize = 16
         then StandardExpand_poly8 phi 8 Wp 8 16
         else StandardExpand_poly16 phi 16 Wp 16 32)"

definition StandardExpand_Wk :: "uint \<Rightarrow> byte list \<Rightarrow> uint list" where
  "StandardExpand_Wk phi Key =
     (let padSize = (if length Key < 32 then 16 else length Key div 2);
          rndCount = (if length Key = 64 then 40 else 32);
          keySize = 4 * (rndCount + 1);
          Wp = StandardExpand_Wp phi Key;
          Wk = replicate keySize 0
      in if padSize = 16
         then StandardExpand_poly8 phi 0 (take 8 (drop 8 Wp) @ drop 8 Wk) 8 keySize
         else StandardExpand_poly16 phi 0 (take 16 (drop 16 Wp) @ drop 16 Wk) 16 keySize)"

text \<open>Step 4: \<^verbatim>\<open>Sb\<close>\<open>i\<close>\<^verbatim>\<open>(Wk[cnt], Wk[cnt + 1], Wk[cnt + 2], Wk[cnt + 3])\<close> in place.\<close>

definition Sb_at :: "Serpent \<Rightarrow> nat \<Rightarrow> uint list \<Rightarrow> nat \<Rightarrow> uint list" where
  "Sb_at P i Wk cnt =
     (case Sb P i (Wk ! cnt, Wk ! (cnt + 1), Wk ! (cnt + 2), Wk ! (cnt + 3)) of
        (a, b, c, d) \<Rightarrow> Wk[cnt := a, cnt + 1 := b, cnt + 2 := c, cnt + 3 := d])"

function StandardExpand_sboxes :: "Serpent \<Rightarrow> uint list \<Rightarrow> nat \<Rightarrow> nat \<Rightarrow> uint list \<times> nat" where
  "StandardExpand_sboxes P Wk cnt keySize =
     (if cnt < keySize - 4
      then
        let Wk = Sb_at P 3 Wk cnt;
            Wk = Sb_at P 2 Wk (cnt + 4);
            Wk = Sb_at P 1 Wk (cnt + 8);
            Wk = Sb_at P 0 Wk (cnt + 12);
            Wk = Sb_at P 7 Wk (cnt + 16);
            Wk = Sb_at P 6 Wk (cnt + 20);
            Wk = Sb_at P 5 Wk (cnt + 24);
            Wk = Sb_at P 4 Wk (cnt + 28)
        in StandardExpand_sboxes P Wk (cnt + 32) keySize
      else (Wk, cnt))"
  by pat_completeness auto
termination
  by (relation "measure (\<lambda>(P, Wk, cnt, keySize). keySize - cnt)") auto

definition StandardExpand :: "Serpent \<Rightarrow> SHX \<Rightarrow> byte list \<Rightarrow> SHX" where
  "StandardExpand P s Key =
     (let rndCount = (if length Key = 64 then 40 else 32);
          keySize = 4 * (rndCount + 1);
          (Wk, cnt) = StandardExpand_sboxes P (StandardExpand_Wk (PHI P) Key) 0 keySize
      in s\<lparr>m_rndCount := rndCount, m_expKey := Sb_at P 3 Wk cnt\<rparr>)"

definition ExpandKey :: "Serpent \<Rightarrow> HKDF \<Rightarrow> SHX \<Rightarrow> byte list \<Rightarrow> SHX" where
  "ExpandKey P hkdf s Key =
     (case m_kdfEngine s of
        Some d \<Rightarrow> SecureExpand hkdf s d Key
      | None \<Rightarrow> StandardExpand P s Key)"

definition Initialize :: "Serpent \<Rightarrow> HKDF \<Rightarrow> SHX \<Rightarrow> bool \<Rightarrow> SymmetricKey \<Rightarrow> error + SHX" where
  "Initialize P hkdf s Encryption KeyParams =
     (if \<not> Contains (m_legalKeySizes s) (length (sk_Key KeyParams))
      then Inl (CryptoSymmetricCipherException ''SHX:Initialize''
                  ''Invalid key size! Key must be one of the LegalKeySizes() in length.'')
      else if m_kdfEngine s \<noteq> None \<and> length (sk_Info KeyParams) > m_kdfInfoMax s
      then Inl (CryptoSymmetricCipherException ''SHX:Initialize''
                  ''Invalid info size! Info parameter must be no longer than DistributionCodeMax size.'')
      else
        let s1 = (if length (sk_Info KeyParams) > 0 then s\<lparr>m_kdfInfo := sk_Info KeyParams\<rparr> else s);
            s2 = s1\<lparr>m_isEncryption := Encryption, m_cprKeySize := length (sk_Key KeyParams) * 8\<rparr>;
            s3 = ExpandKey P hkdf s2 (sk_Key KeyParams)
        in Inr (s3\<lparr>m_isInitialized := True\<rparr>))"

subsection \<open>Rounds processing\<close>

text \<open>
  \<open>AddKey k c\<close> is the group \<^verbatim>\<open>R0 ^= m_expKey[c]; R1 ^= m_expKey[c + 1]; R2 ^=
  m_expKey[c + 2]; R3 ^= m_expKey[c + 3];\<close> (in \<^verbatim>\<open>Decrypt128\<close> the same four subkeys are
  addressed from above, as \<^verbatim>\<open>m_expKey[keyCtr - 1] .. m_expKey[keyCtr - 4]\<close>).
\<close>

definition AddKey :: "uint list \<Rightarrow> nat \<Rightarrow> quad \<Rightarrow> quad" where
  "AddKey k c R =
     (case R of (R0, R1, R2, R3) \<Rightarrow>
        (R0 XOR k ! c, R1 XOR k ! (c + 1), R2 XOR k ! (c + 2), R3 XOR k ! (c + 3)))"

text \<open>The four words of a block are read and written in little-endian order.\<close>

definition LoadBlock :: "byte list \<Rightarrow> nat \<Rightarrow> error + quad" where
  "LoadBlock Input InOffset =
     and_then (LeBytesTo32 Input InOffset) (\<lambda>R0.
     and_then (LeBytesTo32 Input (InOffset + 4)) (\<lambda>R1.
     and_then (LeBytesTo32 Input (InOffset + 8)) (\<lambda>R2.
     and_then (LeBytesTo32 Input (InOffset + 12)) (\<lambda>R3.
     Inr (R0, R1, R2, R3)))))"

definition StoreBlock :: "quad \<Rightarrow> byte list \<Rightarrow> nat \<Rightarrow> error + byte list" where
  "StoreBlock R Output OutOffset =
     (case R of (R0, R1, R2, R3) \<Rightarrow>
        and_then (Le32ToBytes R0 Output OutOffset) (\<lambda>Output.
        and_then (Le32ToBytes R1 Output (OutOffset + 4)) (\<lambda>Output.
        and_then (Le32ToBytes R2 Output (OutOffset + 8)) (\<lambda>Output.
        Le32ToBytes R3 Output (OutOffset + 12)))))"

text \<open>
  One pass of the \<^verbatim>\<open>do ... while (keyCtr != RNDCNT)\<close> loop of \<^verbatim>\<open>Encrypt128\<close> up to and
  including \<^verbatim>\<open>Sb7\<close>; it reads \<open>m_expKey[keyCtr .. keyCtr + 31]\<close>.
\<close>

definition Encrypt128_pass :: "Serpent \<Rightarrow> uint list \<Rightarrow> nat \<Rightarrow> quad \<Rightarrow> quad" where
  "Encrypt128_pass P k keyCtr R =
     (let R = LinearTransform P (Sb P 0 (AddKey k keyCtr R));
          R = LinearTransform P (Sb P 1 (AddKey k (keyCtr + 4) R));
          R = LinearTransform P (Sb P 2 (AddKey k (keyCtr + 8) R));
          R = LinearTransform P (Sb P 3 (AddKey k (keyCtr + 12) R));
          R = LinearTransform P (Sb P 4 (AddKey k (keyCtr + 16) R));
          R = LinearTransform P (Sb P 5 (AddKey k (keyCtr + 20) R));
          R = LinearTransform P (Sb P 6 (AddKey k (keyCtr + 24) R))
      in Sb P 7 (AddKey k (keyCtr + 28) R))"

function Encrypt128_loop ::
  "Serpent \<Rightarrow> uint list \<Rightarrow> nat \<Rightarrow> nat \<Rightarrow> quad \<Rightarrow> error + (nat \<times> quad)" where
  "Encrypt128_loop P k RNDCNT keyCtr R =
     (if length k < keyCtr + 32 then Inl OutOfRange
      else
        let R = Encrypt128_pass P k keyCtr R;
            keyCtr = keyCtr + 32
        in if keyCtr \<noteq> RNDCNT
           then Encrypt128_loop P k RNDCNT keyCtr (LinearTransform P R)
           else Inr (keyCtr, R))"
  by pat_completeness auto
termination
  by (relation "measure (\<lambda>(P, k, RNDCNT, keyCtr, R). length k - keyCtr)") auto

definition Encrypt128 ::
  "Serpent \<Rightarrow> SHX \<Rightarrow> byte list \<Rightarrow> nat \<Rightarrow> byte list \<Rightarrow> nat \<Rightarrow> error + byte list" where
  "Encrypt128 P s Input InOffset Output OutOffset =
     (let RNDCNT = size_t_sub (length (m_expKey s)) 4
      in and_then (LoadBlock Input InOffset) (\<lambda>R.
         and_then (Encrypt128_loop P (m_expKey s) RNDCNT 0 R) (\<lambda>(keyCtr, R).
           if length (m_expKey s) < keyCtr + 4 then Inl OutOfRange
           else StoreBlock (AddKey (m_expKey s) keyCtr R) Output OutOffset)))"

text \<open>
  One pass of the loop of \<^verbatim>\<open>Decrypt128\<close> up to and including \<^verbatim>\<open>Ib0\<close>; it reads
  \<open>m_expKey[keyCtr - 28 .. keyCtr - 1]\<close>.
\<close>

definition Decrypt128_pass :: "Serpent \<Rightarrow> uint list \<Rightarrow> nat \<Rightarrow> quad \<Rightarrow> quad" where
  "Decrypt128_pass P k keyCtr R =
     (let R = InverseTransform P (AddKey k (keyCtr - 4) (Ib P 7 R));
          R = InverseTransform P (AddKey k (keyCtr - 8) (Ib P 6 R));
          R = InverseTransform P (AddKey k (keyCtr - 12) (Ib P 5 R));
          R = InverseTransform P (AddKey k (keyCtr - 16) (Ib P 4 R));
          R = InverseTransform P (AddKey k (keyCtr - 20) (Ib P 3 R));
          R = InverseTransform P (AddKey k (keyCtr - 24) (Ib P 2 R));
          R = InverseTransform P (AddKey k (keyCtr - 28) (Ib P 1 R))
      in Ib P 0 R)"

text \<open>
  The index \<^verbatim>\<open>keyCtr - n\<close> wraps around below zero and is then out of range, so a pass
  needs \<open>28 \<le> keyCtr \<le> length k\<close> and the step after it \<open>4 \<le> keyCtr\<close>.
\<close>

function Decrypt128_loop :: "Serpent \<Rightarrow> uint list \<Rightarrow> nat \<Rightarrow> quad \<Rightarrow> error + (nat \<times> quad)" where
  "Decrypt128_loop P k keyCtr R =
     (if keyCtr < 28 \<or> length k < keyCtr then Inl OutOfRange
      else
        let R = Decrypt128_pass P k keyCtr R;
            keyCtr = keyCtr - 28
        in if keyCtr \<noteq> 4
           then (if keyCtr < 4 then Inl OutOfRange
                 else Decrypt128_loop P k (keyCtr - 4)
                        (InverseTransform P (AddKey k (keyCtr - 4) R)))
           else Inr (keyCtr, R))"
  by pat_completeness auto
termination
  by (relation "measure (\<lambda>(P, k, keyCtr, R). keyCtr)") auto

definition Decrypt128 ::
  "Serpent \<Rightarrow> SHX \<Rightarrow> byte list \<Rightarrow> nat \<Rightarrow> byte list \<Rightarrow> nat \<Rightarrow> error + byte list" where
  "Decrypt128 P s Input InOffset Output OutOffset =
     (let keyCtr = length (m_expKey s)
      in and_then (LoadBlock Input InOffset) (\<lambda>R.
         if keyCtr < 4 then Inl OutOfRange
         else
           and_then (Decrypt128_loop P (m_expKey s) (keyCtr - 4)
                       (AddKey (m_expKey s) (keyCtr - 4) R)) (\<lambda>(keyCtr, R).
             StoreBlock (AddKey (m_expKey s) (keyCtr - 4) R) Output OutOffset)))"

declare Encrypt128_loop.simps [simp del] Decrypt128_loop.simps [simp del]
declare StandardExpand_copy.simps [simp del] StandardExpand_poly8.simps [simp del]
  StandardExpand_poly16.simps [simp del] StandardExpand_sboxes.simps [simp del]

subsection \<open>Public functions\<close>

definition EncryptBlock :: "Serpent \<Rightarrow> SHX \<Rightarrow> byte list \<Rightarrow> byte list \<Rightarrow> error + byte list" where
  "EncryptBlock P s Input Output = Encrypt128 P s Input 0 Output 0"

definition DecryptBlock :: "Serpent \<Rightarrow> SHX \<Rightarrow> byte list \<Rightarrow> byte list \<Rightarrow> error + byte list" where
  "DecryptBlock P s Input Output = Decrypt128 P s Input 0 Output 0"

definition Transform ::
  "Serpent \<Rightarrow> SHX \<Rightarrow> byte list \<Rightarrow> nat \<Rightarrow> byte list \<Rightarrow> nat \<Rightarrow> error + byte list" where
  "Transform P s Input InOffset Output OutOffset =
     (if m_isEncryption s
      then Encrypt128 P s Input InOffset Output OutOffset
      else Decrypt128 P s Input InOffset Output OutOffset)"

subsection \<open>The published Serpent primitives\<close>

text \<open>
  Modelled from the spec: the S-boxes, their inverses and the linear transform of
  \<^verbatim>\<open>Serpent.h\<close>, which is not among the sources, "as published by the Serpent
  designers" (section 4.5): the eight 4-bit S-boxes and their inverses as tables, applied
  in bitsliced form (bit \<open>j\<close> of the words \<open>R0 .. R3\<close> is a nibble with the bit of \<open>R0\<close>
  as its least significant bit), the linear transform with the rotations 13, 3, 1, 7,
  5, 22 and the shifts 3 and 7, and the constant \<open>PHI = 0x9E3779B9\<close>.  They give a
  concrete instance of the parameters.
\<close>

definition word_of_bits :: "(nat \<Rightarrow> bool) \<Rightarrow> uint" where
  "word_of_bits p = horner_sum of_bool 2 (map p [0..<32])"

definition nibble_at :: "quad \<Rightarrow> nat \<Rightarrow> nat" where
  "nibble_at R j =
     (case R of (a, b, c, d) \<Rightarrow>
        of_bool (bit a j) + 2 * of_bool (bit b j) + 4 * of_bool (bit c j) + 8 * of_bool (bit d j))"

definition bitslice :: "nat list \<Rightarrow> quad \<Rightarrow> quad" where
  "bitslice tbl R =
     (word_of_bits (\<lambda>j. bit (tbl ! nibble_at R j) 0),
      word_of_bits (\<lambda>j. bit (tbl ! nibble_at R j) 1),
      word_of_bits (\<lambda>j. bit (tbl ! nibble_at R j) 2),
      word_of_bits (\<lambda>j. bit (tbl ! nibble_at R j) 3))"

definition Serpent_Sbox :: "nat \<Rightarrow> nat list" where
  "Serpent_Sbox i =
     [[3, 8, 15, 1, 10, 6, 5, 11, 14, 13, 4, 2, 7, 0, 9, 12],
      [15, 12, 2, 7, 9, 0, 5, 10, 1, 11, 14, 8, 6, 13, 3, 4],
      [8, 6, 7, 9, 3, 12, 10, 15, 13, 1, 14, 4, 0, 11, 5, 2],
      [0, 15, 11, 8, 12, 9, 6, 3, 13, 1, 2, 4, 10, 7, 5, 14],
      [1, 15, 8, 3, 12, 0, 11, 6, 2, 5, 4, 10, 9, 14, 7, 13],
      [15, 5, 2, 11, 4, 10, 9, 12, 0, 3, 14, 8, 13, 6, 7, 1],
      [7, 2, 12, 5, 8, 4, 6, 11, 14, 9, 1, 15, 13, 3, 10, 0],
      [1, 13, 15, 0, 14, 8, 2, 11, 7, 4, 12, 10, 9, 3, 5, 6]] ! i"

definition Serpent_Sbox_inverse :: "nat \<Rightarrow> nat list" where
  "Serpent_Sbox_inverse i =
     [[13, 3, 11, 0, 10, 6, 5, 12, 1, 14, 4, 7, 15, 9, 8, 2],
      [5, 8, 2, 14, 15, 6, 12, 3, 11, 4, 7, 9, 1, 13, 10, 0],
      [12, 9, 15, 4, 11, 14, 1, 2, 0, 3, 6, 13, 5, 8, 10, 7],
      [0, 9, 10, 7, 11, 14, 6, 13, 3, 5, 12, 2, 4, 8, 15, 1],
      [5, 0, 8, 3, 10, 9, 7, 14, 2, 12, 11, 6, 4, 15, 13, 1],
      [8, 15, 2, 9, 4, 1, 13, 14, 11, 6, 5, 3, 7, 12, 10, 0],
      [15, 10, 1, 13, 5, 3, 6, 0, 4, 9, 14, 7, 2, 12, 8, 11],
      [3, 0, 6, 13, 9, 14, 15, 8, 5, 12, 11, 7, 10, 1, 4, 2]] ! i"

definition Serpent_LT :: "quad \<Rightarrow> quad" where
  "Serpent_LT R =
     (case R of (x0, x1, x2, x3) \<Rightarrow>
        let x0 = word_rotl 13 x0;
            x2 = word_rotl 3 x2;
            x1 = x1 XOR x0 XOR x2;
            x3 = x3 XOR x2 XOR push_bit 3 x0;
            x1 = word_rotl 1 x1;
            x3 = word_rotl 7 x3;
            x0 = x0 XOR x1 XOR x3;
            x2 = x2 XOR x3 XOR push_bit 7 x1;
            x0 = word_rotl 5 x0;
            x2 = word_rotl 22 x2
        in (x0, x1, x2, x3))"

definition Serpent_LT_inverse :: "quad \<Rightarrow> quad" where
  "Serpent_LT_inverse R =
     (case R of (x0, x1, x2, x3) \<Rightarrow>
        let x2 = word_rotr 22 x2;
            x0 = word_rotr 5 x0;
            x2 = x2 XOR x3 XOR push_bit 7 x1;
            x0 = x0 XOR x1 XOR x3;
            x3 = word_rotr 7 x3;
            x1 = word_rotr 1 x1;
            x3 = x3 XOR x2 XOR push_bit 3 x0;
            x1 = x1 XOR x0 XOR x2;
            x2 = word_rotr 3 x2;
            x0 = word_rotr 13 x0
        in (x0, x1, x2, x3))"

definition Serpent_published :: Serpent where
  "Serpent_published =
     \<lparr>Sb = (\<lambda>i. bitslice (Serpent_Sbox i)),
      Ib = (\<lambda>i. bitslice (Serpent_Sbox_inverse i)),
      LinearTransform = Serpent_LT,
      InverseTransform = Serpent_LT_inverse,
      PHI = 0x9E3779B9\<rparr>"

text \<open>
  What decryption needs of the primitives: each \<^verbatim>\<open>Ib\<close>\<open>i\<close> undoes \<^verbatim>\<open>Sb\<close>\<open>i\<close> and
  \<^verbatim>\<open>InverseTransform\<close> undoes \<^verbatim>\<open>LinearTransform\<close>.
\<close>

definition Serpent_inverse :: "Serpent \<Rightarrow> bool" where
  "Serpent_inverse P =
     ((\<forall>i < 8. \<forall>R. Ib P i (Sb P i R) = R) \<and> (\<forall>R. InverseTransform P (LinearTransform P R) = R))"

text \<open>A generator for concrete instances: byte \<open>i\<close> of its output is \<open>i\<close> plus the
  length of the key it was set up with.\<close>

definition toy_hkdf :: HKDF where
  "toy_hkdf d setup i =
     (case setup of
        Extract_Expand k salt info \<Rightarrow> of_nat (i + length k + length salt)
      | Expand_only info k \<Rightarrow> of_nat (i + length k))"

subsection \<open>Auxiliary notions for the statements about SHX\<close>

text \<open>
  Modelled from the spec: the digest SHA-512 that the specification names; its class is
  not among the sources.  It enters by its sizes only: a block of 128 bytes, an output
  of 64 bytes (FIPS 180-4) and a padding of 17 bytes; the hash function is a parameter.
\<close>

definition SHA512_parameters :: "(byte list \<Rightarrow> byte list) \<Rightarrow> IDigest" where
  "SHA512_parameters H = \<lparr>BlockSize = 128, DigestSize = 64, PaddingSize = 17, Compute = H\<rparr>"

text \<open>The first \<open>n\<close> little-endian words of the output of a generator.\<close>

definition generator_words :: "HKDF \<Rightarrow> IDigest \<Rightarrow> HKDF_setup \<Rightarrow> nat \<Rightarrow> uint list" where
  "generator_words hkdf d setup n =
     map (\<lambda>i. le32 (hkdf d setup (4 * i)) (hkdf d setup (4 * i + 1)) (hkdf d setup (4 * i + 2))
                 (hkdf d setup (4 * i + 3)))
       [0..<n]"

text \<open>A result that is an exception of the cipher, as opposed to a fault or a value.\<close>

fun raises_exception :: "error + 'a \<Rightarrow> bool" where
  "raises_exception (Inl (CryptoSymmetricCipherException origin message)) = True"
| "raises_exception _ = False"

text \<open>\<open>n\<close> calls of the scalar \<^verbatim>\<open>Transform\<close> on consecutive blocks, in sequence.\<close>

fun Transform_blocks ::
  "Serpent \<Rightarrow> SHX \<Rightarrow> byte list \<Rightarrow> nat \<Rightarrow> byte list \<Rightarrow> nat \<Rightarrow> nat \<Rightarrow> error + byte list" where
  "Transform_blocks P s Input InOffset Output OutOffset 0 = Inr Output"
| "Transform_blocks P s Input InOffset Output OutOffset (Suc n) =
     and_then (Transform_blocks P s Input InOffset Output OutOffset n)
       (\<lambda>Output. Transform P s Input (InOffset + 16 * n) Output (OutOffset + 16 * n))"

text \<open>
  The sixteen bytes of a block of four words, and the two ciphers on words: what
  \<^verbatim>\<open>Encrypt128\<close> and \<^verbatim>\<open>Decrypt128\<close> compute between reading the block and writing it.
\<close>

definition block_bytes :: "quad \<Rightarrow> byte list" where
  "block_bytes R =
     (case R of (R0, R1, R2, R3) \<Rightarrow>
        [ucast R0, ucast (drop_bit 8 R0), ucast (drop_bit 16 R0), ucast (drop_bit 24 R0),
         ucast R1, ucast (drop_bit 8 R1), ucast (drop_bit 16 R1), ucast (drop_bit 24 R1),
         ucast R2, ucast (drop_bit 8 R2), ucast (drop_bit 16 R2), ucast (drop_bit 24 R2),
         ucast R3, ucast (drop_bit 8 R3), ucast (drop_bit 16 R3), ucast (drop_bit 24 R3)])"

definition Encrypt128_words :: "Serpent \<Rightarrow> uint list \<Rightarrow> quad \<Rightarrow> error + quad" where
  "Encrypt128_words P k R =
     and_then (Encrypt128_loop P k (size_t_sub (length k) 4) 0 R) (\<lambda>(keyCtr, R).
       if length k < keyCtr + 4 then Inl OutOfRange else Inr (AddKey k keyCtr R))"

definition Decrypt128_words :: "Serpent \<Rightarrow> uint list \<Rightarrow> quad \<Rightarrow> error + quad" where
  "Decrypt128_words P k R =
     (if length k < 4 then Inl OutOfRange
      else and_then (Decrypt128_loop P k (length k - 4) (AddKey k (length k - 4) R))
             (\<lambda>(keyCtr, R). Inr (AddKey k (keyCtr - 4) R)))"

definition block_words :: "byte list \<Rightarrow> quad" where
  "block_words bs =
     (le32 (bs ! 0) (bs ! 1) (bs ! 2) (bs ! 3), le32 (bs ! 4) (bs ! 5) (bs ! 6) (bs ! 7),
      le32 (bs ! 8) (bs ! 9) (bs ! 10) (bs ! 11), le32 (bs ! 12) (bs ! 13) (bs ! 14) (bs ! 15))"

definition Transform_words :: "Serpent \<Rightarrow> SHX \<Rightarrow> quad \<Rightarrow> error + quad" where
  "Transform_words P s R =
     (if m_isEncryption s then Encrypt128_words P (m_expKey s) R
      else Decrypt128_words P (m_expKey s) R)"

text \<open>
  The rotating polynomials in the words of the specification: word \<open>i\<close> of \<open>W\<close> is the
  exclusive or of the words at the distances 8, 5, 3, 1 (or 16, 13, 11, 10, 8, 5, 3, 1)
  before it, of \<open>PHI\<close> and of a counter, rotated left by 11.
\<close>

definition poly8_at :: "uint \<Rightarrow> uint list \<Rightarrow> nat \<Rightarrow> nat \<Rightarrow> bool" where
  "poly8_at phi W i counter \<longleftrightarrow>
     W ! i = RotL32 (W ! (i - 8) XOR W ! (i - 5) XOR W ! (i - 3) XOR W ! (i - 1)
                     XOR phi XOR of_nat counter) 11"

definition poly16_at :: "uint \<Rightarrow> uint list \<Rightarrow> nat \<Rightarrow> nat \<Rightarrow> bool" where
  "poly16_at phi W i counter \<longleftrightarrow>
     W ! i = RotL32 (W ! (i - 16) XOR W ! (i - 13) XOR W ! (i - 11) XOR W ! (i - 10)
                     XOR W ! (i - 8) XOR W ! (i - 5) XOR W ! (i - 3) XOR W ! (i - 1)
                     XOR phi XOR of_nat counter) 11"

text \<open>The pass of step 4 over the words \<open>Wk\<close>, as \<^verbatim>\<open>StandardExpand\<close> stores it.\<close>

definition StandardExpand_step4 :: "Serpent \<Rightarrow> uint list \<Rightarrow> uint list" where
  "StandardExpand_step4 P Wk =
     (case StandardExpand_sboxes P Wk 0 (length Wk) of (Wk', cnt) \<Rightarrow> Sb_at P 3 Wk' cnt)"

section \<open>SHX: the bulk transforms\<close>

text \<open>
  The build: which of the macros \<^verbatim>\<open>__AVX512__\<close>, \<^verbatim>\<open>__AVX2__\<close> and \<^verbatim>\<open>__AVX__\<close> are
  defined when \<^verbatim>\<open>SHX.cpp\<close> is compiled.
\<close>

record Build =
  AVX512 :: bool
  AVX2 :: bool
  AVX :: bool

text \<open>
  Modelled from the spec: the templates \<^verbatim>\<open>SHXEncryptW\<close> and \<^verbatim>\<open>SHXDecryptW\<close>
  (\<^verbatim>\<open>SHX.h\<close>), the classes \<^verbatim>\<open>UInt128\<close>, \<^verbatim>\<open>UInt256\<close> and \<^verbatim>\<open>UInt512\<close> of the SIMD words
  and the S-boxes and linear transforms at these types (\<^verbatim>\<open>Serpent.h\<close>) are not among
  the sources.  The specification has the bulk transforms operate on 4, 8 or 16 blocks
  in parallel through SIMD words of 128, 256 or 512 bits, the round using the same
  subkeys, broadcast across the lanes.  Accordingly a SIMD word is the list of its
  32-bit lanes, and a SIMD type is given by the number of its lanes.  The state is four
  SIMD words \<open>(R0, R1, R2, R3)\<close>; lane \<open>j\<close> of them holds the four words of block \<open>j\<close>.
  The rounds are those of \<^verbatim>\<open>Encrypt128\<close> and \<^verbatim>\<open>Decrypt128\<close> on SIMD words: a subkey is
  broadcast and added lane by lane, and an S-box or a linear transform, made of bitwise
  operations, shifts and rotations of 32-bit words, does in every lane what it does on
  scalar words.
\<close>

type_synonym simd = "uint list"

type_synonym wquad = "simd \<times> simd \<times> simd \<times> simd"

definition UInt128 :: nat where "UInt128 = 4"

definition UInt256 :: nat where "UInt256 = 8"

definition UInt512 :: nat where "UInt512 = 16"

definition broadcast :: "nat \<Rightarrow> uint \<Rightarrow> simd" where
  "broadcast n x = replicate n x"

definition simd_xor :: "simd \<Rightarrow> simd \<Rightarrow> simd" where
  "simd_xor a b = map2 (XOR) a b"

definition lanes_of :: "quad list \<Rightarrow> wquad" where
  "lanes_of qs =
     (map (\<lambda>(R0, R1, R2, R3). R0) qs, map (\<lambda>(R0, R1, R2, R3). R1) qs,
      map (\<lambda>(R0, R1, R2, R3). R2) qs, map (\<lambda>(R0, R1, R2, R3). R3) qs)"

definition quads_of :: "wquad \<Rightarrow> quad list" where
  "quads_of R = (case R of (R0, R1, R2, R3) \<Rightarrow> zip R0 (zip R1 (zip R2 R3)))"

definition lanewise :: "(quad \<Rightarrow> quad) \<Rightarrow> wquad \<Rightarrow> wquad" where
  "lanewise f R = lanes_of (map f (quads_of R))"

definition AddKeyW :: "uint list \<Rightarrow> nat \<Rightarrow> wquad \<Rightarrow> wquad" where
  "AddKeyW k c R =
     (case R of (R0, R1, R2, R3) \<Rightarrow>
        (simd_xor R0 (broadcast (length R0) (k ! c)),
         simd_xor R1 (broadcast (length R1) (k ! (c + 1))),
         simd_xor R2 (broadcast (length R2) (k ! (c + 2))),
         simd_xor R3 (broadcast (length R3) (k ! (c + 3)))))"

text \<open>The blocks are read into the lanes and written back from them in their order.\<close>

definition LoadW :: "nat \<Rightarrow> byte list \<Rightarrow> nat \<Rightarrow> error + wquad" where
  "LoadW n Input InOffset =
     (if InOffset + 16 * n \<le> length Input
      then Inr (lanes_of (map (\<lambda>j. block_words (take 16 (drop (InOffset + 16 * j) Input))) [0..<n]))
      else Inl OutOfRange)"

definition StoreW :: "wquad \<Rightarrow> byte list \<Rightarrow> nat \<Rightarrow> error + byte list" where
  "StoreW R Output OutOffset = store (concat (map block_bytes (quads_of R))) Output OutOffset"

definition SHXEncryptW_pass :: "Serpent \<Rightarrow> uint list \<Rightarrow> nat \<Rightarrow> wquad \<Rightarrow> wquad" where
  "SHXEncryptW_pass P k keyCtr R =
     (let R = lanewise (LinearTransform P) (lanewise (Sb P 0) (AddKeyW k keyCtr R));
          R = lanewise (LinearTransform P) (lanewise (Sb P 1) (AddKeyW k (keyCtr + 4) R));
          R = lanewise (LinearTransform P) (lanewise (Sb P 2) (AddKeyW k (keyCtr + 8) R));
          R = lanewise (LinearTransform P) (lanewise (Sb P 3) (AddKeyW k (keyCtr + 12) R));
          R = lanewise (LinearTransform P) (lanewise (Sb P 4) (AddKeyW k (keyCtr + 16) R));
          R = lanewise (LinearTransform P) (lanewise (Sb P 5) (AddKeyW k (keyCtr + 20) R));
          R = lanewise (LinearTransform P) (lanewise (Sb P 6) (AddKeyW k (keyCtr + 24) R))
      in lanewise (Sb P 7) (AddKeyW k (keyCtr + 28) R))"

function SHXEncryptW_loop ::
  "Serpent \<Rightarrow> uint list \<Rightarrow> nat \<Rightarrow> nat \<Rightarrow> wquad \<Rightarrow> error + (nat \<times> wquad)" where
  "SHXEncryptW_loop P k RNDCNT keyCtr R =
     (if length k < keyCtr + 32 then Inl OutOfRange
      else
        let R = SHXEncryptW_pass P k keyCtr R;
            keyCtr = keyCtr + 32
        in if keyCtr \<noteq> RNDCNT
           then SHXEncryptW_loop P k RNDCNT keyCtr (lanewise (LinearTransform P) R)
           else Inr (keyCtr, R))"
  by pat_completeness auto
termination
  by (relation "measure (\<lambda>(P, k, RNDCNT, keyCtr, R). length k - keyCtr)") auto

definition SHXEncryptW ::
  "nat \<Rightarrow> Serpent \<Rightarrow> byte list \<Rightarrow> nat \<Rightarrow> byte list \<Rightarrow> nat \<Rightarrow> uint list \<Rightarrow> error + byte list" where
  "SHXEncryptW T P Input InOffset Output OutOffset Key =
     (let RNDCNT = size_t_sub (length Key) 4
      in and_then (LoadW T Input InOffset) (\<lambda>R.
         and_then (SHXEncryptW_loop P Key RNDCNT 0 R) (\<lambda>(keyCtr, R).
           if length Key < keyCtr + 4 then Inl OutOfRange
           else StoreW (AddKeyW Key keyCtr R) Output OutOffset)))"

definition SHXDecryptW_pass :: "Serpent \<Rightarrow> uint list \<Rightarrow> nat \<Rightarrow> wquad \<Rightarrow> wquad" where
  "SHXDecryptW_pass P k keyCtr R =
     (let R = lanewise (InverseTransform P) (AddKeyW k (keyCtr - 4) (lanewise (Ib P 7) R));
          R = lanewise (InverseTransform P) (AddKeyW k (keyCtr - 8) (lanewise (Ib P 6) R));
          R = lanewise (InverseTransform P) (AddKeyW k (keyCtr - 12) (lanewise (Ib P 5) R));
          R = lanewise (InverseTransform P) (AddKeyW k (keyCtr - 16) (lanewise (Ib P 4) R));
          R = lanewise (InverseTransform P) (AddKeyW k (keyCtr - 20) (lanewise (Ib P 3) R));
          R = lanewise (InverseTransform P) (AddKeyW k (keyCtr - 24) (lanewise (Ib P 2) R));
          R = lanewise (InverseTransform P) (AddKeyW k (keyCtr - 28) (lanewise (Ib P 1) R))
      in lanewise (Ib P 0) R)"

function SHXDecryptW_loop ::
  "Serpent \<Rightarrow> uint list \<Rightarrow> nat \<Rightarrow> wquad \<Rightarrow> error + (nat \<times> wquad)" where
  "SHXDecryptW_loop P k keyCtr R =
     (if keyCtr < 28 \<or> length k < keyCtr then Inl OutOfRange
      else
        let R = SHXDecryptW_pass P k keyCtr R;
            keyCtr = keyCtr - 28
        in if keyCtr \<noteq> 4
           then (if keyCtr < 4 then Inl OutOfRange
                 else SHXDecryptW_loop P k (keyCtr - 4)
                        (lanewise (InverseTransform P) (AddKeyW k (keyCtr - 4) R)))
           else Inr (keyCtr, R))"
  by pat_completeness auto
termination
  by (relation "measure (\<lambda>(P, k, keyCtr, R). keyCtr)") auto

definition SHXDecryptW ::
  "nat \<Rightarrow> Serpent \<Rightarrow> byte list \<Rightarrow> nat \<Rightarrow> byte list \<Rightarrow> nat \<Rightarrow> uint list \<Rightarrow> error + byte list" where
  "SHXDecryptW T P Input InOffset Output OutOffset Key =
     (let keyCtr = length Key
      in and_then (LoadW T Input InOffset) (\<lambda>R.
         if keyCtr < 4 then Inl OutOfRange
         else
           and_then (SHXDecryptW_loop P Key (keyCtr - 4) (AddKeyW Key (keyCtr - 4) R))
             (\<lambda>(keyCtr, R). StoreW (AddKeyW Key (keyCtr - 4) R) Output OutOffset)))"

declare SHXEncryptW_loop.simps [simp del] SHXDecryptW_loop.simps [simp del]

text \<open>
  \<^verbatim>\<open>Encrypt2048\<close> and \<^verbatim>\<open>Decrypt2048\<close> with their four branches: one call on sixteen
  lanes with \<^verbatim>\<open>__AVX512__\<close>, two calls on eight lanes with \<^verbatim>\<open>__AVX2__\<close>, four calls on
  four lanes with \<^verbatim>\<open>__AVX__\<close>, and otherwise sixteen calls of the scalar function.
\<close>

definition Encrypt2048 ::
  "Build \<Rightarrow> Serpent \<Rightarrow> SHX \<Rightarrow> byte list \<Rightarrow> nat \<Rightarrow> byte list \<Rightarrow> nat \<Rightarrow> error + byte list" where
  "Encrypt2048 B P s Input InOffset Output OutOffset =
     (if AVX512 B
      then
         SHXEncryptW UInt512 P Input InOffset Output OutOffset (m_expKey s)
      else if \<not> AVX512 B \<and> AVX2 B
      then
         and_then (SHXEncryptW UInt256 P Input InOffset Output OutOffset (m_expKey s)) (\<lambda>Output.
         SHXEncryptW UInt256 P Input (InOffset + 128) Output (OutOffset + 128) (m_expKey s))
      else if \<not> AVX512 B \<and> \<not> AVX2 B \<and> AVX B
      then
         and_then (SHXEncryptW UInt128 P Input InOffset Output OutOffset (m_expKey s)) (\<lambda>Output.
         and_then (SHXEncryptW UInt128 P Input (InOffset + 64) Output (OutOffset + 64) (m_expKey s)) (\<lambda>Output.
         and_then (SHXEncryptW UInt128 P Input (InOffset + 128) Output (OutOffset + 128) (m_expKey s)) (\<lambda>Output.
         SHXEncryptW UInt128 P Input (InOffset + 192) Output (OutOffset + 192) (m_expKey s))))
      else
         and_then (Encrypt128 P s Input InOffset Output OutOffset) (\<lambda>Output.
         and_then (Encrypt128 P s Input (InOffset + 16) Output (OutOffset + 16)) (\<lambda>Output.
         and_then (Encrypt128 P s Input (InOffset + 32) Output (OutOffset + 32)) (\<lambda>Output.
         and_then (Encrypt128 P s Input (InOffset + 48) Output (OutOffset + 48)) (\<lambda>Output.
         and_then (Encrypt128 P s Input (InOffset + 64) Output (OutOffset + 64)) (\<lambda>Output.
         and_then (Encrypt128 P s Input (InOffset + 80) Output (OutOffset + 80)) (\<lambda>Output.
         and_then (Encrypt128 P s Input (InOffset + 96) Output (OutOffset + 96)) (\<lambda>Output.
         and_then (Encrypt128 P s Input (InOffset + 112) Output (OutOffset + 112)) (\<lambda>Output.
         and_then (Encrypt128 P s Input (InOffset + 128) Output (OutOffset + 128)) (\<lambda>Output.
         and_then (Encrypt128 P s Input (InOffset + 144) Output (OutOffset + 144)) (\<lambda>Output.
         and_then (Encrypt128 P s Input (InOffset + 160) Output (OutOffset + 160)) (\<lambda>Output.
         and_then (Encrypt128 P s Input (InOffset + 176) Output (OutOffset + 176)) (\<lambda>Output.
         and_then (Encrypt128 P s Input (InOffset + 192) Output (OutOffset + 192)) (\<lambda>Output.
         and_then (Encrypt128 P s Input (InOffset + 208) Output (OutOffset + 208)) (\<lambda>Output.
         and_then (Encrypt128 P s Input (InOffset + 224) Output (OutOffset + 224)) (\<lambda>Output.
         Encrypt128 P s Input (InOffset + 240) Output (OutOffset + 240)))))))))))))))))"

definition Decrypt2048 ::
  "Build \<Rightarrow> Serpent \<Rightarrow> SHX \<Rightarrow> byte list \<Rightarrow> nat \<Rightarrow> byte list \<Rightarrow> nat \<Rightarrow> error + byte list" where
  "Decrypt2048 B P s Input InOffset Output OutOffset =
     (if AVX512 B
      then
         SHXDecryptW UInt512 P Input InOffset Output OutOffset (m_expKey s)
      else if \<not> AVX512 B \<and> AVX2 B
      then
         and_then (SHXDecryptW UInt256 P Input InOffset Output OutOffset (m_expKey s)) (\<lambda>Output.
         SHXDecryptW UInt256 P Input (InOffset + 128) Output (OutOffset + 128) (m_expKey s))
      else if \<not> AVX512 B \<and> \<not> AVX2 B \<and> AVX B
      then
         and_then (SHXDecryptW UInt128 P Input InOffset Output OutOffset (m_expKey s)) (\<lambda>Output.
         and_then (SHXDecryptW UInt128 P Input (InOffset + 64) Output (OutOffset + 64) (m_expKey s)) (\<lambda>Output.
         and_then (SHXDecryptW UInt128 P Input (InOffset + 128) Output (OutOffset + 128) (m_expKey s)) (\<lambda>Output.
         SHXDecryptW UInt128 P Input (InOffset + 192) Output (OutOffset + 192) (m_expKey s))))
      else
         and_then (Decrypt128 P s Input InOffset Output OutOffset) (\<lambda>Output.
         and_then (Decrypt128 P s Input (InOffset + 16) Output (OutOffset + 16)) (\<lambda>Output.
         and_then (Decrypt128 P s Input (InOffset + 32) Output (OutOffset + 32)) (\<lambda>Output.
         and_then (Decrypt128 P s Input (InOffset + 48) Output (OutOffset + 48)) (\<lambda>Output.
         and_then (Decrypt128 P s Input (InOffset + 64) Output (OutOffset + 64)) (\<lambda>Output.
         and_then (Decrypt128 P s Input (InOffset + 80) Output (OutOffset + 80)) (\<lambda>Output.
         and_then (Decrypt128 P s Input (InOffset + 96) Output (OutOffset + 96)) (\<lambda>Output.
         and_then (Decrypt128 P s Input (InOffset + 112) Output (OutOffset + 112)) (\<lambda>Output.
         and_then (Decrypt128 P s Input (InOffset + 128) Output (OutOffset + 128)) (\<lambda>Output.
         and_then (Decrypt128 P s Input (InOffset + 144) Output (OutOffset + 144)) (\<lambda>Output.
         and_then (Decrypt128 P s Input (InOffset + 160) Output (OutOffset + 160)) (\<lambda>Output.
         and_then (Decrypt128 P s Input (InOffset + 176) Output (OutOffset + 176)) (\<lambda>Output.
         and_then (Decrypt128 P s Input (InOffset + 192) Output (OutOffset + 192)) (\<lambda>Output.
         and_then (Decrypt128 P s Input (InOffset + 208) Output (OutOffset + 208)) (\<lambda>Output.
         and_then (Decrypt128 P s Input (InOffset + 224) Output (OutOffset + 224)) (\<lambda>Output.
         Decrypt128 P s Input (InOffset + 240) Output (OutOffset + 240)))))))))))))))))"

definition Transform2048 ::
  "Build \<Rightarrow> Serpent \<Rightarrow> SHX \<Rightarrow> byte list \<Rightarrow> nat \<Rightarrow> byte list \<Rightarrow> nat \<Rightarrow> error + byte list" where
  "Transform2048 B P s Input InOffset Output OutOffset =
     (if m_isEncryption s
      then Encrypt2048 B P s Input InOffset Output OutOffset
      else Decrypt2048 B P s Input InOffset Output OutOffset)"

section \<open>Sequencing\<close>

lemma and_then_Inr_iff: "and_then r f = Inr y \<longleftrightarrow> (\<exists>x. r = Inr x \<and> f x = Inr y)"
  by (cases r) auto

lemma and_then_Inl_iff: "and_then r f = Inl e \<longleftrightarrow> r = Inl e \<or> (\<exists>x. r = Inr x \<and> f x = Inl e)"
  by (cases r) auto

lemma and_then_assoc: "and_then (and_then r f) g = and_then r (\<lambda>x. and_then (f x) g)"
  by (cases r) auto

section \<open>CSG: properties of LeftEncode\<close>
lemma be_bytes_min_length_pos: "0 < length (be_bytes_min x)"
  by (induction x rule: be_bytes_min.induct) (subst be_bytes_min.simps, simp)

lemma LeftEncode_count_eq:
  "unat v < 256 ^ (8 - n) \<Longrightarrow> n \<le> 8 \<Longrightarrow>
   LeftEncode_count v n = n + (if v = 0 then 0 else length (be_bytes_min (unat v)))"
proof (induction v n rule: LeftEncode_count.induct)
  case (1 v n)
  show ?case
  proof (cases "v \<noteq> 0 \<and> n < 8")
    case True
    have d: "unat (drop_bit 8 v) = unat v div 256"
      by (simp add: drop_bit_eq_div unat_div)
    have "unat v < 256 * 256 ^ (8 - (n + 1))"
      using 1(2) True by (metis Suc_diff_Suc Suc_eq_plus1 power_Suc)
    then have b: "unat (drop_bit 8 v) < 256 ^ (8 - (n + 1))"
      unfolding d by (simp add: less_mult_imp_div_less mult.commute)
    have ih: "LeftEncode_count (drop_bit 8 v) (n + 1) =
       n + 1 + (if drop_bit 8 v = 0 then 0 else length (be_bytes_min (unat (drop_bit 8 v))))"
      using 1(1)[OF True b] True by simp
    have z: "drop_bit 8 v = 0 \<longleftrightarrow> unat v < 256"
      using d by (metis div_eq_0_iff unat_eq_0 zero_neq_numeral)
    have s: "LeftEncode_count v n = LeftEncode_count (drop_bit 8 v) (n + 1)"
      using True by (subst LeftEncode_count.simps) simp
    show ?thesis
    proof (cases "unat v < 256")
      case True
      then have "be_bytes_min (unat v) = [of_nat (unat v)]" by (subst be_bytes_min.simps) simp
      then show ?thesis using s ih z True \<open>v \<noteq> 0 \<and> n < 8\<close> by simp
    next
      case False
      then have "be_bytes_min (unat v) = be_bytes_min (unat v div 256) @ [of_nat (unat v mod 256)]"
        by (subst be_bytes_min.simps) simp
      then show ?thesis using s ih z d False \<open>v \<noteq> 0 \<and> n < 8\<close> by simp
    qed
  next
    case False
    then have "v = 0 \<or> n = 8" using 1(3) by auto
    then show ?thesis
    proof
      assume "v = 0" then show ?thesis by (subst LeftEncode_count.simps) simp
    next
      assume "n = 8" then have "v = 0" using 1(2) by (simp add: unat_eq_0)
      then show ?thesis by (subst LeftEncode_count.simps) simp
    qed
  qed
qed

lemma LeftEncode_count_0:
  "LeftEncode_count v 0 = (if v = 0 then 0 else length (be_bytes_min (unat v)))"
proof -
  have "unat v < 256 ^ (8 - 0)" using unsigned_less[of v, where 'a=nat] by simp
  from LeftEncode_count_eq[OF this] show ?thesis by simp
qed

lemma LeftEncode_fill_length [simp]:
  "length (LeftEncode_fill Buffer Offset Value n i) = length Buffer"
  by (induction Buffer Offset Value n i rule: LeftEncode_fill.induct)
     (subst LeftEncode_fill.simps, simp)

lemma LeftEncode_fill_nth:
  "k < length Buffer \<Longrightarrow>
   LeftEncode_fill Buffer Offset Value n i ! k =
     (if Offset + i \<le> k \<and> k \<le> Offset + n
      then ucast (drop_bit (8 * (n - (k - Offset))) Value) else Buffer ! k)"
proof (induction Buffer Offset Value n i rule: LeftEncode_fill.induct)
  case (1 Buffer Offset Value n i)
  show ?case
  proof (cases "i \<le> n")
    case True
    have "Offset + i = k \<Longrightarrow> n - i = n - (k - Offset)" by auto
    with True show ?thesis
      using 1 by (subst LeftEncode_fill.simps) (auto simp: nth_list_update)
  next
    case False
    then show ?thesis by (subst LeftEncode_fill.simps) auto
  qed
qed

lemma be_bytes_min_nth:
  "j < length (be_bytes_min x) \<Longrightarrow>
   be_bytes_min x ! j = of_nat (x div 256 ^ (length (be_bytes_min x) - 1 - j))"
proof (induction x arbitrary: j rule: be_bytes_min.induct)
  case (1 x)
  show ?case
  proof (cases "x < 256")
    case True
    then have "be_bytes_min x = [of_nat x]" by (subst be_bytes_min.simps) simp
    then show ?thesis using 1(2) by simp
  next
    case False
    then have e: "be_bytes_min x = be_bytes_min (x div 256) @ [of_nat (x mod 256)]"
      by (subst be_bytes_min.simps) simp
    let ?m = "length (be_bytes_min (x div 256))"
    show ?thesis
    proof (cases "j < ?m")
      case True
      have "be_bytes_min x ! j = be_bytes_min (x div 256) ! j"
        using True by (simp add: e nth_append)
      also have "\<dots> = of_nat ((x div 256) div 256 ^ (?m - 1 - j))"
        using 1(1)[OF False True] .
      also have "(x div 256) div 256 ^ (?m - 1 - j) = x div 256 ^ (Suc (?m - 1 - j))"
        by (simp add: div_mult2_eq)
      also have "Suc (?m - 1 - j) = length (be_bytes_min x) - 1 - j"
        using True by (simp add: e)
      finally show ?thesis .
    next
      case F: False
      then have j: "j = ?m" using 1(2) by (simp add: e)
      have "(of_nat (x mod 256) :: byte) = of_nat x"
        by (simp add: word_of_nat_eq_iff take_bit_eq_mod)
      then show ?thesis using j by (simp add: e nth_append)
    qed
  qed
qed


lemma ucast_drop_bit_byte:
  "(ucast (drop_bit (8 * m) (v :: ulong)) :: byte) = of_nat (unat v div 256 ^ m)"
proof -
  have p: "(2::nat) ^ (8 * m) = 256 ^ m" by (simp add: power_mult)
  have "(ucast (drop_bit (8 * m) v) :: byte) = of_nat (unat (drop_bit (8 * m) v))"
    by (simp only: of_nat_unat)
  also have "unat (drop_bit (8 * m) v) = unat v div 2 ^ (8 * m)"
    by (simp only: unat_drop_bit_eq) (simp only: drop_bit_eq_div)
  finally show ?thesis by (simp only: p)
qed

lemma LeftEncode_general:
  assumes "Offset + length (be_bytes_min (unat Value)) < length Buffer"
  shows "LeftEncode Buffer Offset Value =
           Inr (take Offset Buffer @ left_encode_spec (unat Value)
                  @ drop (Offset + length (left_encode_spec (unat Value))) Buffer,
                length (left_encode_spec (unat Value)))"
proof -
  let ?bs = "be_bytes_min (unat Value)"
  let ?n = "length ?bs"
  have npos: "0 < ?n" by (rule be_bytes_min_length_pos)
  have z: "Value = 0 \<Longrightarrow> ?n = 1"
    by (simp add: be_bytes_min.simps)
  have n: "(let n0 = LeftEncode_count Value 0 in if n0 = 0 then 1 else n0) = ?n"
    using npos z by (auto simp: LeftEncode_count_0 Let_def)
  let ?out = "(LeftEncode_fill Buffer Offset Value ?n 1)[Offset := of_nat ?n]"
  have "?out = take Offset Buffer @ left_encode_spec (unat Value)
                  @ drop (Offset + length (left_encode_spec (unat Value))) Buffer"
  proof (rule nth_equalityI)
    show "length ?out = length (take Offset Buffer @ left_encode_spec (unat Value)
                  @ drop (Offset + length (left_encode_spec (unat Value))) Buffer)"
      using assms by (simp add: left_encode_spec_def)
  next
    fix k assume "k < length ?out"
    then have k: "k < length Buffer" by simp
    consider "k < Offset" | "k = Offset" | "Offset < k" "k \<le> Offset + ?n" | "Offset + ?n < k"
      by linarith
    then show "?out ! k = (take Offset Buffer @ left_encode_spec (unat Value)
                  @ drop (Offset + length (left_encode_spec (unat Value))) Buffer) ! k"
    proof cases
      case 1
      then show ?thesis using k by (simp add: LeftEncode_fill_nth nth_append)
    next
      case 2
      then show ?thesis using k by (simp add: nth_append left_encode_spec_def)
    next
      case 3
      then have j: "k - Offset - 1 < ?n" by linarith
      have "?out ! k = ucast (drop_bit (8 * (?n - (k - Offset))) Value)"
        using 3 k by (simp add: LeftEncode_fill_nth)
      also have "\<dots> = of_nat (unat Value div 256 ^ (?n - (k - Offset)))"
        by (rule ucast_drop_bit_byte)
      also have "?n - (k - Offset) = ?n - 1 - (k - Offset - 1)"
        using 3 by linarith
      also have "of_nat (unat Value div 256 ^ (?n - 1 - (k - Offset - 1))) = ?bs ! (k - Offset - 1)"
        using be_bytes_min_nth[OF j] by simp
      also have "\<dots> = (take Offset Buffer @ left_encode_spec (unat Value)
                  @ drop (Offset + length (left_encode_spec (unat Value))) Buffer) ! k"
        using 3 k j by (simp add: nth_append left_encode_spec_def nth_Cons')
      finally show ?thesis .
    next
      case 4
      then have "\<not> k - Suc Offset < ?n" by linarith
      with 4 show ?thesis
        using k assms by (simp add: LeftEncode_fill_nth nth_append left_encode_spec_def)
    qed
  qed
  then show ?thesis
    using assms n by (simp add: LeftEncode_def Let_def left_encode_spec_def)
qed




lemma be_decode_append: "be_decode (xs @ ys) = be_decode xs * 256 ^ length ys + be_decode ys"
  by (induction xs) (simp_all add: power_add algebra_simps)

lemma be_decode_be_bytes_min: "be_decode (be_bytes_min x) = x"
proof (induction x rule: be_bytes_min.induct)
  case (1 x)
  show ?case
  proof (cases "x < 256")
    case True
    then show ?thesis by (subst be_bytes_min.simps) (simp add: unat_of_nat take_bit_nat_eq_self)
  next
    case False
    have "unat (of_nat (x mod 256) :: byte) = x mod 256"
      by (simp add: unat_of_nat take_bit_eq_mod)
    with False 1 show ?thesis
      by (subst be_bytes_min.simps) (simp add: be_decode_append)
  qed
qed

lemma be_bytes_min_hd: "256 \<le> x \<Longrightarrow> hd (be_bytes_min x) \<noteq> 0"
proof (induction x rule: be_bytes_min.induct)
  case (1 x)
  then have e: "be_bytes_min x = be_bytes_min (x div 256) @ [of_nat (x mod 256)]"
    by (subst be_bytes_min.simps) simp
  show ?case
  proof (cases "x div 256 < 256")
    case True
    have "x div 256 \<noteq> 0" using 1(2) by simp
    then have "(of_nat (x div 256) :: byte) \<noteq> 0"
      using True by (simp add: word_of_nat_eq_0_iff take_bit_eq_mod dvd_eq_mod_eq_0)
    then show ?thesis using True by (simp add: e be_bytes_min.simps[of "x div 256"])
  next
    case False
    then have "hd (be_bytes_min (x div 256)) \<noteq> 0" using 1 by simp
    moreover have "be_bytes_min (x div 256) \<noteq> []"
      using be_bytes_min_length_pos[of "x div 256"] by auto
    ultimately show ?thesis by (simp add: e)
  qed
qed

text \<open>
  Claim C5.  For every 64-bit value, \<open>LeftEncode\<close> writes at \<open>Offset\<close> the minimal
  big-endian byte representation of the value (at least one byte) preceded by one byte
  holding its length, leaves the rest of the buffer as it was, and returns the number
  of bytes written.  In particular 0 is encoded as 01 00, 255 as 01 FF and 256 as
  02 01 00.
\<close>

theorem LeftEncode_spec:
  "(Offset + length (be_bytes_min (unat Value)) < length Buffer \<longrightarrow>
      LeftEncode Buffer Offset Value =
        Inr (take Offset Buffer @ left_encode_spec (unat Value)
               @ drop (Offset + length (left_encode_spec (unat Value))) Buffer,
             length (left_encode_spec (unat Value))))
   \<and> LeftEncode [0, 0] 0 0 = Inr ([0x01, 0x00], 2)
   \<and> LeftEncode [0, 0] 0 255 = Inr ([0x01, 0xFF], 2)
   \<and> LeftEncode [0, 0, 0] 0 256 = Inr ([0x02, 0x01, 0x00], 3)"
proof -
  have a: "be_bytes_min 0 = [0]" by (simp add: be_bytes_min.simps)
  have b: "be_bytes_min 255 = [255]" by (simp add: be_bytes_min.simps)
  have c: "be_bytes_min 256 = [1, 0]" by (simp add: be_bytes_min.simps)
  show ?thesis
    using LeftEncode_general[of 0 0 "[0, 0]"] LeftEncode_general[of 0 255 "[0, 0]"]
      LeftEncode_general[of 0 256 "[0, 0, 0]"] LeftEncode_general[of Offset Value Buffer]
    by (simp add: a b c left_encode_spec_def)
qed

theorem LeftEncode_spec_witness:
  "(7 :: nat) + length (be_bytes_min (unat (0x1234 :: ulong))) < length (replicate 12 (0xAA :: byte)) \<and>
   LeftEncode (replicate 12 0xAA) 7 0x1234 =
     Inr (replicate 7 0xAA @ [0x02, 0x12, 0x34] @ replicate 2 0xAA, 3)"
proof -
  have c: "be_bytes_min 4660 = [0x12, 0x34]" by (simp add: be_bytes_min.simps)
  show ?thesis
    using LeftEncode_spec[of 7 "0x1234" "replicate 12 0xAA"]
    by (simp add: c left_encode_spec_def)
qed

section \<open>KDF2: properties\<close>

lemma Copy_length: "Copy Input InOffset Output OutOffset Length = Inr out \<Longrightarrow> length out = length Output"
  by (auto simp: Copy_def split: if_splits)

lemma Copy_ok:
  "InOffset + Length \<le> length Input \<Longrightarrow> OutOffset + Length \<le> length Output \<Longrightarrow>
   Copy Input InOffset Output OutOffset Length =
     Inr (take OutOffset Output @ take Length (drop InOffset Input) @ drop (OutOffset + Length) Output)"
  by (simp add: Copy_def)

lemma resize_Nil [simp]: "resize [] n = replicate n 0"
  by (simp add: resize_def)

lemma KDF2_new_inv: "KDF2_inv (KDF2_new d)"
  by (simp add: KDF2_inv_def KDF2_new_def LoadState_KDF2_def Let_def)

lemma KDF2_new_fields [simp]:
  "m_kdfCounter (KDF2_new d) = 1" "m_isInitialized_KDF2 (KDF2_new d) = False"
  "m_hashSize (KDF2_new d) = DigestSize d" "m_blockSize (KDF2_new d) = BlockSize d"
  "m_kdfKey (KDF2_new d) = []" "m_kdfSalt (KDF2_new d) = []" "m_msgDigest (KDF2_new d) = d"
  by (simp_all add: KDF2_new_def LoadState_KDF2_def Let_def)

text \<open>The state after \<^verbatim>\<open>Initialize(Key)\<close> with a key of at most one block.\<close>

lemma Initialize_KDF2_short:
  assumes "KDF2_inv s" "m_hashSize s \<le> length Key" "length Key \<le> m_blockSize s"
  shows "Initialize_KDF2 s Key =
           Inr (s\<lparr>m_kdfCounter := (if m_isInitialized_KDF2 s then 1 else m_kdfCounter s),
                  m_kdfKey := Key @ replicate (m_blockSize s - length Key) 0,
                  m_kdfSalt := [],
                  m_isInitialized_KDF2 := True\<rparr>)"
proof (cases "m_isInitialized_KDF2 s")
  case True
  then show ?thesis
    using assms by (simp add: Initialize_KDF2_def Reset_KDF2_def Copy_def Let_def)
next
  case False
  then have "m_kdfKey s = []" "m_kdfSalt s = []" using assms(1) by (auto simp: KDF2_inv_def)
  then show ?thesis
    using assms False by (simp add: Initialize_KDF2_def Copy_def Let_def)
qed


lemma Initialize_KDF2_inv:
  "KDF2_inv s \<Longrightarrow> Initialize_KDF2 s Key = Inr s' \<Longrightarrow> KDF2_inv s'"
  by (auto simp: Initialize_KDF2_def KDF2_inv_def Reset_KDF2_def Let_def and_then_Inr_iff
           split: if_splits)

lemma Reset_KDF2_inv: "KDF2_inv s \<Longrightarrow> KDF2_inv (Reset_KDF2 s)"
  by (simp add: KDF2_inv_def Reset_KDF2_def)

lemma Expand_loop_fields:
  "Expand_loop s Output OutOffset prcLen = Inr (s', Output') \<Longrightarrow>
   (\<exists>c. s' = s\<lparr>m_kdfCounter := c\<rparr>) \<and> length Output' = length Output"
proof (induction s Output OutOffset prcLen arbitrary: s' Output' rule: Expand_loop.induct)
  case (1 s Output OutOffset prcLen)
  from "1.prems" have h: "m_hashSize s \<noteq> 0"
    by (subst (asm) Expand_loop.simps) (auto split: if_splits)
  obtain out1 where c: "Copy (Expand_hash s) 0 Output OutOffset (min (m_hashSize s) prcLen) = Inr out1"
    using "1.prems" h by (subst (asm) Expand_loop.simps) (auto simp: Let_def and_then_Inr_iff)
  have l1: "length out1 = length Output" using c by (rule Copy_length)
  show ?case
  proof (cases "prcLen - min (m_hashSize s) prcLen \<noteq> 0")
    case True
    then have r: "Expand_loop (s\<lparr>m_kdfCounter := m_kdfCounter s + 1\<rparr>) out1
              (OutOffset + min (m_hashSize s) prcLen) (prcLen - min (m_hashSize s) prcLen) = Inr (s', Output')"
      using "1.prems" h c by (subst (asm) Expand_loop.simps) (simp add: Let_def)
    have "(\<exists>c. s' = (s\<lparr>m_kdfCounter := m_kdfCounter s + 1\<rparr>)\<lparr>m_kdfCounter := c\<rparr>)
            \<and> length Output' = length out1"
      using "1.IH"[OF h refl refl refl True r] .
    with l1 show ?thesis by simp
  next
    case False
    then show ?thesis
      using "1.prems" h c l1 by (subst (asm) Expand_loop.simps) (auto simp: Let_def)
  qed
qed

lemma Generate_inv:
  "KDF2_inv s \<Longrightarrow> Generate s Output = Inr (s', Output', n) \<Longrightarrow> KDF2_inv s'"
proof -
  assume i: "KDF2_inv s" and g: "Generate s Output = Inr (s', Output', n)"
  then obtain o2 where "Expand_loop s Output 0 (length Output) = Inr (s', o2)"
    by (auto simp: Generate_def Expand_def and_then_Inr_iff split: if_splits prod.splits)
  from Expand_loop_fields[OF this] obtain c where "s' = s\<lparr>m_kdfCounter := c\<rparr>" by blast
  then show ?thesis using i by (simp add: KDF2_inv_def)
qed

text \<open>
  Claim C10.  For a key of at least the digest output size and at most one block, the
  single-argument \<open>Initialize\<close> stores the key padded with zero bytes to exactly one
  block; a key extended by zero bytes (up to the block size) gives the same generator
  state, hence the same result of every later \<open>Generate\<close>.
\<close>

theorem Initialize_KDF2_zero_padding:
  assumes "KDF2_inv s" and "m_hashSize s \<le> length Key" and "length Key + n \<le> m_blockSize s"
  shows "(\<exists>s'. Initialize_KDF2 s Key = Inr s'
            \<and> m_kdfKey s' = Key @ replicate (m_blockSize s - length Key) 0
            \<and> length (m_kdfKey s') = m_blockSize s \<and> m_kdfSalt s' = [])
         \<and> Initialize_KDF2 s (Key @ replicate n 0) = Initialize_KDF2 s Key
         \<and> and_then (Initialize_KDF2 s (Key @ replicate n 0)) (\<lambda>g. Generate g Output)
             = and_then (Initialize_KDF2 s Key) (\<lambda>g. Generate g Output)"
proof -
  have a: "length Key \<le> m_blockSize s" using assms(3) by simp
  have b: "m_hashSize s \<le> length (Key @ replicate n 0)" using assms(2) by simp
  have c: "length (Key @ replicate n 0) \<le> m_blockSize s" using assms(3) by simp
  have p: "(Key @ replicate n 0) @ replicate (m_blockSize s - length (Key @ replicate n 0)) 0
             = Key @ replicate (m_blockSize s - length Key) 0"
    using assms(3) by (simp add: replicate_add [symmetric])
  have e: "Initialize_KDF2 s (Key @ replicate n 0) = Initialize_KDF2 s Key"
    unfolding Initialize_KDF2_short[OF assms(1) b c] Initialize_KDF2_short[OF assms(1,2) a] p ..
  show ?thesis
    using a by (simp add: e Initialize_KDF2_short[OF assms(1,2) a])
qed


theorem Initialize_KDF2_zero_padding_witness:
  "KDF2_inv (KDF2_new toy_digest) \<and> m_hashSize (KDF2_new toy_digest) \<le> length [1, 2, 3, 4 :: byte]
   \<and> length [1, 2, 3, 4 :: byte] + 2 \<le> m_blockSize (KDF2_new toy_digest)
   \<and> Initialize_KDF2 (KDF2_new toy_digest) ([1, 2, 3, 4] @ replicate 2 0)
       = Initialize_KDF2 (KDF2_new toy_digest) [1, 2, 3, 4]
   \<and> and_then (Initialize_KDF2 (KDF2_new toy_digest) [1, 2, 3, 4]) (\<lambda>g. Inr (m_kdfKey g))
       = Inr [1, 2, 3, 4, 0, 0, 0, 0]"
proof -
  have i: "KDF2_inv (KDF2_new toy_digest)" by (rule KDF2_new_inv)
  have h: "m_hashSize (KDF2_new toy_digest) \<le> length [1, 2, 3, 4 :: byte]"
    by (simp add: toy_digest_def)
  have b: "length [1, 2, 3, 4 :: byte] + 2 \<le> m_blockSize (KDF2_new toy_digest)"
    by (simp add: toy_digest_def)
  from Initialize_KDF2_zero_padding[OF i h b, of "[0]"] i h b show ?thesis
    by (auto simp: toy_digest_def eval_nat_numeral)
qed

lemma Expand_loop_succeeds:
  assumes "0 < m_hashSize s"
    and "\<And>m. length (Compute (m_msgDigest s) m) = m_hashSize s"
    and "OutOffset + prcLen \<le> length Output"
  shows "\<exists>s' out. Expand_loop s Output OutOffset prcLen = Inr (s', out)
           \<and> length out = length Output
           \<and> m_kdfCounter s' = m_kdfCounter s + max 1 ((prcLen + m_hashSize s - 1) div m_hashSize s)"
  using assms
proof (induction s Output OutOffset prcLen rule: Expand_loop.induct)
  case (1 s Output OutOffset prcLen)
  let ?h = "m_hashSize s"
  let ?r = "min ?h prcLen"
  have h: "?h \<noteq> 0" using "1.prems"(1) by simp
  have lh: "length (Expand_hash s) = ?h" by (simp add: Expand_hash_def "1.prems"(2))
  have "0 + ?r \<le> length (Expand_hash s)" "OutOffset + ?r \<le> length Output"
    using lh "1.prems"(3) by auto
  from Copy_ok[OF this] obtain out1 where
    c: "Copy (Expand_hash s) 0 Output OutOffset ?r = Inr out1"
    by blast
  have l1: "length out1 = length Output" using c by (rule Copy_length)
  have unf: "Expand_loop s Output OutOffset prcLen =
     (if prcLen - ?r \<noteq> 0
      then Expand_loop (s\<lparr>m_kdfCounter := m_kdfCounter s + 1\<rparr>) out1 (OutOffset + ?r) (prcLen - ?r)
      else Inr (s\<lparr>m_kdfCounter := m_kdfCounter s + 1\<rparr>, out1))"
    by (subst Expand_loop.simps) (simp only: h c Let_def and_then.simps if_False)
  show ?case
  proof (cases "prcLen - ?r \<noteq> 0")
    case True
    then have gt: "?h < prcLen" by auto
    let ?s1 = "s\<lparr>m_kdfCounter := m_kdfCounter s + 1\<rparr>"
    have "\<exists>s' out. Expand_loop ?s1 out1 (OutOffset + ?r) (prcLen - ?r) = Inr (s', out)
           \<and> length out = length out1
           \<and> m_kdfCounter s' = m_kdfCounter ?s1 + max 1 ((prcLen - ?r + m_hashSize ?s1 - 1) div m_hashSize ?s1)"
    proof (rule "1.IH"[OF h refl refl refl True])
      show "0 < m_hashSize ?s1" using "1.prems"(1) by simp
      show "\<And>m. length (Compute (m_msgDigest ?s1) m) = m_hashSize ?s1" using "1.prems"(2) by simp
      show "OutOffset + ?r + (prcLen - ?r) \<le> length out1" using "1.prems"(3) l1 by simp
    qed
    then obtain s' out where
      r: "Expand_loop ?s1 out1 (OutOffset + ?r) (prcLen - ?r) = Inr (s', out)"
      and l: "length out = length out1"
      and k: "m_kdfCounter s' = m_kdfCounter s + 1 + max 1 ((prcLen - ?r + ?h - 1) div ?h)"
      by auto
    have r': "?r = ?h" using gt by simp
    have e1: "prcLen + ?h - 1 = (prcLen - 1) + ?h" using gt by linarith
    have e2: "prcLen - ?h + ?h - 1 = prcLen - 1" using gt by linarith
    have "(prcLen + ?h - 1) div ?h = (prcLen - 1) div ?h + 1"
      unfolding e1 by (rule div_add_self2[OF h])
    moreover have "m_kdfCounter s' = m_kdfCounter s + 1 + max 1 ((prcLen - 1) div ?h)"
      using k unfolding r' e2 .
    moreover have "0 < (prcLen - 1) div ?h"
      using gt h by (simp add: div_greater_zero_iff)
    ultimately have "m_kdfCounter s' = m_kdfCounter s + max 1 ((prcLen + ?h - 1) div ?h)"
      by (simp add: max_def)
    moreover have "Expand_loop s Output OutOffset prcLen = Inr (s', out)"
      unfolding unf using True r by simp
    ultimately show ?thesis using l l1 by simp
  next
    case False
    then have le: "prcLen \<le> ?h" by (auto simp: min_def split: if_splits)
    have "prcLen + ?h - 1 < 2 * ?h" using le "1.prems"(1) by linarith
    then have "(prcLen + ?h - 1) div ?h < 2" by (rule less_mult_imp_div_less)
    then have "(prcLen + ?h - 1) div ?h \<le> 1" by simp
    then have "max 1 ((prcLen + ?h - 1) div ?h) = 1" by simp
    moreover have "Expand_loop s Output OutOffset prcLen = Inr (s\<lparr>m_kdfCounter := m_kdfCounter s + 1\<rparr>, out1)"
      unfolding unf using False by simp
    ultimately show ?thesis using l1 by simp
  qed
qed

lemma Initialize_KDF2_fields:
  assumes "Initialize_KDF2 s Key = Inr g"
  shows "m_isInitialized_KDF2 g" "m_hashSize g = m_hashSize s" "m_blockSize g = m_blockSize s"
    "m_msgDigest g = m_msgDigest s"
    "m_kdfCounter g = (if m_isInitialized_KDF2 s then 1 else m_kdfCounter s)"
  using assms
  by (auto simp: Initialize_KDF2_def Reset_KDF2_def Let_def and_then_Inr_iff split: if_splits)

text \<open>A request of fewer than 255 blocks on a freshly initialized generator succeeds.\<close>

lemma Generate_fresh_succeeds:
  assumes d: "0 < DigestSize d" "\<And>m. length (Compute d m) = DigestSize d"
    and i: "Initialize_KDF2 (KDF2_new d) Key = Inr g"
    and l: "0 < length Output" "length Output < 255 * DigestSize d"
  shows "\<exists>g' out. Generate g Output = Inr (g', out, length Output) \<and> length out = length Output
           \<and> m_kdfCounter g' \<le> 256"
proof -
  note f = Initialize_KDF2_fields[OF i]
  have h: "m_hashSize g = DigestSize d" and c: "m_kdfCounter g = 1" and m: "m_msgDigest g = d"
    using f by simp_all
  have q: "length Output div DigestSize d < 255"
    using l(2) by (rule less_mult_imp_div_less)
  have "\<exists>s' out. Expand_loop g Output 0 (length Output) = Inr (s', out)
           \<and> length out = length Output
           \<and> m_kdfCounter s' = m_kdfCounter g + max 1 ((length Output + m_hashSize g - 1) div m_hashSize g)"
    by (rule Expand_loop_succeeds) (simp_all add: h m d)
  then obtain g' out where e: "Expand_loop g Output 0 (length Output) = Inr (g', out)"
    and lo: "length out = length Output"
    and k: "m_kdfCounter g' = 1 + max 1 ((length Output + DigestSize d - 1) div DigestSize d)"
    unfolding h c by blast
  have "length Output + DigestSize d - 1 < 255 * DigestSize d + DigestSize d" using l d(1) by linarith
  then have "length Output + DigestSize d - 1 < 256 * DigestSize d" by simp
  then have "(length Output + DigestSize d - 1) div DigestSize d < 256"
    by (rule less_mult_imp_div_less)
  then have "m_kdfCounter g' \<le> 256" using k by simp
  moreover have "Generate g Output = Inr (g', out, length Output)"
    using f(1) l(1) d(1) q e by (simp add: Generate_def Expand_def h c)
  ultimately show ?thesis using lo by blast
qed

text \<open>
  A request whose last block would be numbered beyond 255 is refused before any output
  is produced.
\<close>

lemma Generate_beyond_255:
  assumes "m_isInitialized_KDF2 g" "0 < m_hashSize g" "0 < length Output"
    and "255 < m_kdfCounter g + (length Output + m_hashSize g - 1) div m_hashSize g - 1"
  shows "Generate g Output =
           Inl (CryptoKdfException ''KDF2:Generate''
                  ''KDF2 may only be used for 255 * HashLen bytes of output'')"
proof -
  let ?h = "m_hashSize g" and ?L = "length Output"
  have "(?L + ?h - 1) div ?h \<le> (?L + ?h) div ?h" by (rule div_le_mono) simp
  also have "\<dots> = ?L div ?h + 1" using assms(2) by (intro div_add_self2) simp
  finally have "255 < m_kdfCounter g + ?L div ?h" using assms(4) by linarith
  then show ?thesis using assms(1-3) by (simp add: Generate_def)
qed

text \<open>A request of exactly 255 blocks on a freshly initialized generator is refused.\<close>

lemma Generate_fresh_255_blocks:
  assumes "0 < DigestSize d" and "Initialize_KDF2 (KDF2_new d) Key = Inr g"
    and "length Output = 255 * DigestSize d"
  shows "Generate g Output =
           Inl (CryptoKdfException ''KDF2:Generate''
                  ''KDF2 may only be used for 255 * HashLen bytes of output'')"
  using assms Initialize_KDF2_fields[OF assms(2)] by (simp add: Generate_def)

text \<open>
  Claim C7, at its boundary.  A generator over a digest of 32 output bytes (block size
  64), initialized with a 32-byte key, is asked for \<open>255 * 32 = 8160\<close> bytes, the
  amount the exception message grants: the request is refused.
\<close>

theorem KDF2_Generate_255_blocks_refused:
  "and_then
     (Initialize_KDF2
        (KDF2_new \<lparr>BlockSize = 64, DigestSize = 32, PaddingSize = 9, Compute = H\<rparr>)
        (replicate 32 0))
     (\<lambda>g. Generate g (replicate (255 * 32) 0))
   = Inl (CryptoKdfException ''KDF2:Generate''
            ''KDF2 may only be used for 255 * HashLen bytes of output'')"
proof -
  let ?d = "\<lparr>BlockSize = 64, DigestSize = 32, PaddingSize = 9, Compute = H\<rparr>"
  have "KDF2_inv (KDF2_new ?d)" by (rule KDF2_new_inv)
  from Initialize_KDF2_short[OF this, of "replicate 32 0"]
  obtain g where i: "Initialize_KDF2 (KDF2_new ?d) (replicate 32 0) = Inr g" by simp
  have "Generate g (replicate (255 * 32) 0) =
           Inl (CryptoKdfException ''KDF2:Generate''
                  ''KDF2 may only be used for 255 * HashLen bytes of output'')"
    by (rule Generate_fresh_255_blocks[OF _ i]) simp_all
  then show ?thesis by (simp add: i)
qed

section \<open>StreamWriter: properties\<close>

lemma upt_0_2: "[0..<2] = [0, 1::nat]" by code_simp
lemma upt_0_4: "[0..<4] = [0, 1, 2, 3::nat]" by code_simp
lemma upt_0_8: "[0..<8] = [0, 1, 2, 3, 4, 5, 6, 7::nat]" by code_simp

lemma of_nat_mod_256_byte: "(of_nat (x mod 256) :: byte) = of_nat x"
  by (simp add: word_of_nat_eq_iff take_bit_eq_mod)

lemma le_bytes_spec_nth:
  fixes v :: "'a::len word"
  shows "le_bytes_spec v = map (\<lambda>i. of_nat (unat v div 256 ^ i)) [0..<LENGTH('a) div 8]"
  by (simp add: le_bytes_spec_def of_nat_mod_256_byte)

lemma ucast_drop_bit_to_byte:
  fixes v :: "'a::len word"
  shows "(ucast (drop_bit (8 * m) v) :: byte) = of_nat (unat v div 256 ^ m)"
proof -
  have p: "(2::nat) ^ (8 * m) = 256 ^ m" by (simp add: power_mult)
  have "(ucast (drop_bit (8 * m) v) :: byte) = of_nat (unat (drop_bit (8 * m) v))"
    by (simp only: of_nat_unat)
  also have "unat (drop_bit (8 * m) v) = unat v div 2 ^ (8 * m)"
    by (simp only: unat_drop_bit_eq) (simp only: drop_bit_eq_div)
  finally show ?thesis by (simp only: p)
qed

lemma le_bytes_eq_spec: "le_bytes v = le_bytes_spec v"
  by (simp add: le_bytes_def le_bytes_spec_def sizeof_def ucast_drop_bit_to_byte of_nat_mod_256_byte)

lemma store_ok:
  "OutOffset + length bs \<le> length Output \<Longrightarrow>
   store bs Output OutOffset = Inr (take OutOffset Output @ bs @ drop (OutOffset + length bs) Output)"
  by (simp add: store_def)

lemma grow_length: "m_streamPosition w + n \<le> length (grow w n)"
  by (simp add: grow_def resize_def)

lemma grow_take:
  "take (m_streamPosition w) (grow w n) =
     take (m_streamPosition w) (m_streamState w)
       @ replicate (m_streamPosition w - length (m_streamState w)) 0"
  by (simp add: grow_def resize_def)

lemma ucast_same_unat:
  fixes v :: "'a::len word"
  assumes "LENGTH('a) \<le> LENGTH('b::len)"
  shows "unat (ucast v :: 'b word) = unat v"
proof -
  have "unat v < 2 ^ LENGTH('a)" by (rule unsigned_less)
  also have "(2::nat) ^ LENGTH('a) \<le> 2 ^ LENGTH('b)" using assms by simp
  finally show ?thesis by (simp add: unsigned_ucast_eq take_bit_nat_eq_self_iff)
qed

lemma ucast_drop_bit_ucast_byte:
  fixes v :: "'a::len word"
  assumes "LENGTH('a) \<le> LENGTH('b::len)"
  shows "(ucast (drop_bit (8 * m) (ucast v :: 'b word)) :: byte) = of_nat (unat v div 256 ^ m)"
  by (simp only: ucast_drop_bit_to_byte ucast_same_unat[OF assms])

lemma ucast_ucast_byte:
  fixes v :: "'a::len word"
  assumes "LENGTH('a) \<le> LENGTH('b::len)"
  shows "(ucast (ucast v :: 'b word) :: byte) = of_nat (unat v)"
  using ucast_drop_bit_ucast_byte[OF assms, of 0 v] by simp

lemma Write_le_16:
  fixes Value :: "'a::len word"
  assumes "LENGTH('a) = 16"
  shows "Write host w Value =
     Inr \<lparr>m_streamPosition = m_streamPosition w + 2,
          m_streamState = take (m_streamPosition w) (grow w 2) @ le_bytes_spec Value
                            @ drop (m_streamPosition w + 2) (grow w 2)\<rparr>"
proof -
  have l: "LENGTH('a) \<le> LENGTH(16)" using assms by simp
  have b: "[ucast (ucast Value :: 16 word), ucast (drop_bit 8 (ucast Value :: 16 word))]
            = (le_bytes_spec Value :: byte list)"
    using ucast_drop_bit_ucast_byte[OF l, of 1 Value] ucast_ucast_byte[OF l, of Value]
    by (simp add: le_bytes_spec_nth assms upt_0_2)
  show ?thesis
    using grow_length[of w 2]
    by (simp add: Write_def sizeof_def assms Let_def Le16ToBytes_def b store_ok le_bytes_spec_nth)
qed

lemma Write_le_32:
  fixes Value :: "'a::len word"
  assumes "LENGTH('a) = 32"
  shows "Write host w Value =
     Inr \<lparr>m_streamPosition = m_streamPosition w + 4,
          m_streamState = take (m_streamPosition w) (grow w 4) @ le_bytes_spec Value
                            @ drop (m_streamPosition w + 4) (grow w 4)\<rparr>"
proof -
  have l: "LENGTH('a) \<le> LENGTH(32)" using assms by simp
  have b: "[ucast (ucast Value :: 32 word), ucast (drop_bit 8 (ucast Value :: 32 word)),
            ucast (drop_bit 16 (ucast Value :: 32 word)), ucast (drop_bit 24 (ucast Value :: 32 word))]
            = (le_bytes_spec Value :: byte list)"
    using ucast_drop_bit_ucast_byte[OF l, of 1 Value] ucast_drop_bit_ucast_byte[OF l, of 2 Value]
      ucast_drop_bit_ucast_byte[OF l, of 3 Value] ucast_ucast_byte[OF l, of Value]
    by (simp add: le_bytes_spec_nth assms upt_0_4)
  show ?thesis
    using grow_length[of w 4]
    by (simp add: Write_def sizeof_def assms Let_def Le32ToBytes_def b store_ok le_bytes_spec_nth)
qed

lemma Write_le_64:
  fixes Value :: "'a::len word"
  assumes "LENGTH('a) = 64"
  shows "Write host w Value =
     Inr \<lparr>m_streamPosition = m_streamPosition w + 8,
          m_streamState = take (m_streamPosition w) (grow w 8) @ le_bytes_spec Value
                            @ drop (m_streamPosition w + 8) (grow w 8)\<rparr>"
proof -
  have l: "LENGTH('a) \<le> LENGTH(64)" using assms by simp
  have b: "[ucast (ucast Value :: 64 word), ucast (drop_bit 8 (ucast Value :: 64 word)),
            ucast (drop_bit 16 (ucast Value :: 64 word)), ucast (drop_bit 24 (ucast Value :: 64 word)),
            ucast (drop_bit 32 (ucast Value :: 64 word)), ucast (drop_bit 40 (ucast Value :: 64 word)),
            ucast (drop_bit 48 (ucast Value :: 64 word)), ucast (drop_bit 56 (ucast Value :: 64 word))]
            = (le_bytes_spec Value :: byte list)"
    using ucast_drop_bit_ucast_byte[OF l, of 1 Value] ucast_drop_bit_ucast_byte[OF l, of 2 Value]
      ucast_drop_bit_ucast_byte[OF l, of 3 Value] ucast_drop_bit_ucast_byte[OF l, of 4 Value]
      ucast_drop_bit_ucast_byte[OF l, of 5 Value] ucast_drop_bit_ucast_byte[OF l, of 6 Value]
      ucast_drop_bit_ucast_byte[OF l, of 7 Value] ucast_ucast_byte[OF l, of Value]
    by (simp add: le_bytes_spec_nth assms upt_0_8)
  show ?thesis
    using grow_length[of w 8]
    by (simp add: Write_def sizeof_def assms Let_def Le64ToBytes_def b store_ok le_bytes_spec_nth)
qed

lemma length_le_bytes [simp]:
  fixes v :: "'a::len word"
  shows "length (le_bytes v) = LENGTH('a) div 8"
  by (simp add: le_bytes_def sizeof_def)

lemma length_concat_le_bytes:
  fixes xs :: "'a::len word list"
  shows "length (concat (map le_bytes xs)) = (LENGTH('a) div 8) * length xs"
  by (induction xs) simp_all

lemma store_twice:
  assumes "store bs Output OutOffset = Inr st"
  shows "store bs st OutOffset = Inr st"
proof -
  have l: "OutOffset + length bs \<le> length Output"
    using assms by (simp add: store_def split: if_splits)
  then have st: "st = take OutOffset Output @ bs @ drop (OutOffset + length bs) Output"
    using assms by (simp add: store_def)
  have "length st = length Output" using l by (simp add: st)
  moreover have "take OutOffset st = take OutOffset Output" using l by (simp add: st)
  moreover have "drop (OutOffset + length bs) st = drop (OutOffset + length bs) Output"
    using l by (simp add: st)
  ultimately show ?thesis using l by (simp add: store_def) (simp add: st)
qed

lemma Write_array_little_endian_host:
  fixes Input :: "'a::len word list"
  assumes n: "1 < LENGTH('a) div 8" and r: "InOffset + Elements \<le> length Input"
  shows "Write_array LittleEndian w Input InOffset Elements =
     Inr \<lparr>m_streamPosition = m_streamPosition w + (LENGTH('a) div 8) * Elements,
          m_streamState =
            take (m_streamPosition w) (grow w ((LENGTH('a) div 8) * Elements))
            @ concat (map le_bytes_spec (take Elements (drop InOffset Input)))
            @ drop (m_streamPosition w + (LENGTH('a) div 8) * Elements)
                (grow w ((LENGTH('a) div 8) * Elements))\<rparr>"
proof (cases "Elements = 0")
  case True
  then show ?thesis
    by (simp add: Write_array_def LeToBlock_def Copy_array_def Let_def)
next
  case False
  let ?n = "LENGTH('a) div 8"
  let ?L = "?n * Elements"
  let ?st = "grow w ?L"
  let ?bs = "concat (map le_bytes (take Elements (drop InOffset Input)))"
  have d: "?L div ?n = Elements" using n by simp
  have L0: "?L \<noteq> 0" using n False by simp
  have lb: "length ?bs = ?L" using r by (simp add: length_concat_le_bytes)
  have "m_streamPosition w + length ?bs \<le> length ?st" unfolding lb by (rule grow_length)
  from store_ok[OF this]
  have s1: "store ?bs ?st (m_streamPosition w) =
      Inr (take (m_streamPosition w) ?st @ ?bs @ drop (m_streamPosition w + ?L) ?st)"
    unfolding lb .
  have b1: "LeToBlock Input InOffset ?st (m_streamPosition w) ?L =
      Inr (take (m_streamPosition w) ?st @ ?bs @ drop (m_streamPosition w + ?L) ?st)"
    using r L0 s1 by (simp only: LeToBlock_def Let_def d if_False if_True)
  have nb: "native_bytes LittleEndian = (le_bytes :: 'a word \<Rightarrow> byte list)"
    by (rule ext) (simp add: native_bytes_def)
  have b2: "Copy_array LittleEndian Input InOffset
        (take (m_streamPosition w) ?st @ ?bs @ drop (m_streamPosition w + ?L) ?st)
        (m_streamPosition w) ?L =
      Inr (take (m_streamPosition w) ?st @ ?bs @ drop (m_streamPosition w + ?L) ?st)"
    using r L0 store_twice[OF s1] by (simp only: Copy_array_def Let_def d if_False if_True nb)
  have sp: "map le_bytes_spec (take Elements (drop InOffset Input))
          = map le_bytes (take Elements (drop InOffset Input))"
    by (simp add: le_bytes_eq_spec)
  show ?thesis
    unfolding Write_array_def Let_def sp using n by (simp only: b1 b2 and_then.simps if_True)
qed

text \<open>
  For the integer types of 2, 4 and 8 bytes, writing a single value stores its bytes in
  little-endian order at the position of the stream on every host, and on a
  little-endian host writing \<open>Elements\<close> elements of an array stores their
  little-endian encodings one after the other; the stream grows when the write passes
  its end and the position advances by the number of bytes written.
\<close>

lemma Write_little_endian:
  fixes Value :: "'a::len word" and Input :: "'a word list"
  shows "LENGTH('a) \<in> {16, 32, 64} \<longrightarrow>
    Write host w Value =
       Inr \<lparr>m_streamPosition = m_streamPosition w + LENGTH('a) div 8,
            m_streamState =
              take (m_streamPosition w) (grow w (LENGTH('a) div 8)) @ le_bytes_spec Value
              @ drop (m_streamPosition w + LENGTH('a) div 8) (grow w (LENGTH('a) div 8))\<rparr>
    \<and> (InOffset + Elements \<le> length Input \<longrightarrow>
       Write_array LittleEndian w Input InOffset Elements =
         Inr \<lparr>m_streamPosition = m_streamPosition w + (LENGTH('a) div 8) * Elements,
              m_streamState =
                take (m_streamPosition w) (grow w ((LENGTH('a) div 8) * Elements))
                @ concat (map le_bytes_spec (take Elements (drop InOffset Input)))
                @ drop (m_streamPosition w + (LENGTH('a) div 8) * Elements)
                    (grow w ((LENGTH('a) div 8) * Elements))\<rparr>)"
proof (intro impI conjI)
  assume a: "LENGTH('a) \<in> {16, 32, 64}"
  then consider "LENGTH('a) = 16" | "LENGTH('a) = 32" | "LENGTH('a) = 64" by auto
  then show "Write host w Value =
       Inr \<lparr>m_streamPosition = m_streamPosition w + LENGTH('a) div 8,
            m_streamState =
              take (m_streamPosition w) (grow w (LENGTH('a) div 8)) @ le_bytes_spec Value
              @ drop (m_streamPosition w + LENGTH('a) div 8) (grow w (LENGTH('a) div 8))\<rparr>"
  proof cases
    case 1 then show ?thesis using Write_le_16[OF 1, of host w Value] by simp
  next
    case 2 then show ?thesis using Write_le_32[OF 2, of host w Value] by simp
  next
    case 3 then show ?thesis using Write_le_64[OF 3, of host w Value] by simp
  qed
  assume r: "InOffset + Elements \<le> length Input"
  have "1 < LENGTH('a) div 8" using a by auto
  from Write_array_little_endian_host[OF this r]
  show "Write_array LittleEndian w Input InOffset Elements =
         Inr \<lparr>m_streamPosition = m_streamPosition w + (LENGTH('a) div 8) * Elements,
              m_streamState =
                take (m_streamPosition w) (grow w ((LENGTH('a) div 8) * Elements))
                @ concat (map le_bytes_spec (take Elements (drop InOffset Input)))
                @ drop (m_streamPosition w + (LENGTH('a) div 8) * Elements)
                    (grow w ((LENGTH('a) div 8) * Elements))\<rparr>" .
qed

lemma Write_little_endian_example:
  "LENGTH(32) \<in> {16, 32, 64 :: nat} \<and> (0::nat) + 2 \<le> length [0x01020304, 0x0A0B0C0D :: 32 word]
   \<and> Write LittleEndian \<lparr>m_streamPosition = 1, m_streamState = [0xAA]\<rparr> (0x01020304 :: 32 word)
       = Inr \<lparr>m_streamPosition = 5, m_streamState = [0xAA, 0x04, 0x03, 0x02, 0x01]\<rparr>
   \<and> Write_array LittleEndian \<lparr>m_streamPosition = 1, m_streamState = [0xAA]\<rparr>
         [0x01020304, 0x0A0B0C0D :: 32 word] 0 2
       = Inr \<lparr>m_streamPosition = 9,
              m_streamState = [0xAA, 0x04, 0x03, 0x02, 0x01, 0x0D, 0x0C, 0x0B, 0x0A]\<rparr>"
  using Write_little_endian[where 'a = 32, of LittleEndian
      "\<lparr>m_streamPosition = 1, m_streamState = [0xAA]\<rparr>" "0x01020304" 0 2
      "[0x01020304, 0x0A0B0C0D]"]
  by (simp add: grow_def resize_def le_bytes_spec_def upt_0_4)

text \<open>
  Claim C8.  The array form of \<^verbatim>\<open>Write\<close> converts the elements to little-endian
  order only to copy the memory of the array over them: the block with
  \<^verbatim>\<open>MemUtils::Copy\<close> is not the \<^verbatim>\<open>else\<close> of the test of the element size.  On a
  big-endian host the array holding the 16-bit integer \<open>0x0102\<close>, written to an empty
  stream, leaves the two bytes \<open>01 02\<close> of the host order, not the little-endian bytes
  \<open>02 01\<close> which the form for a vector, which converts only, and the form for a single
  value store on the same host.
\<close>

theorem StreamWriter_Write_array_host_order:
  "Write_array BigEndian \<lparr>m_streamPosition = 0, m_streamState = []\<rparr> [0x0102 :: 16 word] 0 1
     = Inr \<lparr>m_streamPosition = 2, m_streamState = [0x01, 0x02]\<rparr>
   \<and> concat (map le_bytes_spec [0x0102 :: 16 word]) = [0x02, 0x01]
   \<and> Write_vector \<lparr>m_streamPosition = 0, m_streamState = []\<rparr> [0x0102 :: 16 word]
     = Inr \<lparr>m_streamPosition = 2, m_streamState = [0x02, 0x01]\<rparr>
   \<and> Write BigEndian \<lparr>m_streamPosition = 0, m_streamState = []\<rparr> (0x0102 :: 16 word)
     = Inr \<lparr>m_streamPosition = 2, m_streamState = [0x02, 0x01]\<rparr>"
  by (simp add: Write_array_def Write_vector_def Write_def LeToBlock_def Copy_array_def Let_def
      grow_def resize_def store_def native_bytes_def le_bytes_def le_bytes_spec_def sizeof_def
      Le16ToBytes_def upt_0_2)

section \<open>The published Serpent primitives are invertible\<close>

lemma bit_word_of_bits: "bit (word_of_bits p) j \<longleftrightarrow> j < 32 \<and> p j"
  by (auto simp: word_of_bits_def bit_horner_sum_bit_word_iff)

lemma nibble_at_less: "nibble_at R j < 16"
  by (cases R) (simp add: nibble_at_def)

lemma lt16_cases: "m < 16 \<Longrightarrow> m \<in> {0, 1, 2, 3, 4, 5, 6, 7, 8, 9, 10, 11, 12, 13, 14, 15::nat}"
proof -
  assume "m < 16"
  then have "m \<in> set [0..<16]" by simp
  also have "[0..<16] = [0, 1, 2, 3, 4, 5, 6, 7, 8, 9, 10, 11, 12, 13, 14, 15::nat]" by code_simp
  finally show ?thesis by simp
qed

lemma lt8_cases: "m < 8 \<Longrightarrow> m \<in> {0, 1, 2, 3, 4, 5, 6, 7::nat}"
proof -
  assume "m < 8"
  then have "m \<in> set [0..<8]" by simp
  also have "[0..<8] = [0, 1, 2, 3, 4, 5, 6, 7::nat]" by code_simp
  finally show ?thesis by simp
qed

lemma nibble_bits:
  "bit (of_bool a + 2 * of_bool b + 4 * of_bool c + 8 * of_bool d :: nat) 0 = a"
  "bit (of_bool a + 2 * of_bool b + 4 * of_bool c + 8 * of_bool d :: nat) 1 = b"
  "bit (of_bool a + 2 * of_bool b + 4 * of_bool c + 8 * of_bool d :: nat) 2 = c"
  "bit (of_bool a + 2 * of_bool b + 4 * of_bool c + 8 * of_bool d :: nat) 3 = d"
  "bit (of_bool a + 2 * of_bool b + 4 * of_bool c + 8 * of_bool d :: nat) (Suc 0) = b"
  by (cases a; cases b; cases c; cases d; simp add: bit_iff_odd_drop_bit drop_bit_eq_div)+

lemma nibble_of_bits:
  "m < 16 \<Longrightarrow> of_bool (bit m 0) + 2 * of_bool (bit m 1) + 4 * of_bool (bit m 2)
        + 8 * of_bool (bit m (3::nat)) = (m::nat)"
proof -
  assume "m < 16"
  then have "m \<in> {0, 1, 2, 3, 4, 5, 6, 7, 8, 9, 10, 11, 12, 13, 14, 15}" by (rule lt16_cases)
  then show ?thesis
    by (elim insertE emptyE) (simp_all add: bit_iff_odd_drop_bit drop_bit_eq_div)
qed


lemma nibble_at_bitslice:
  assumes "j < 32" and "\<forall>n < 16. tbl ! n < 16"
  shows "nibble_at (bitslice tbl R) j = tbl ! nibble_at R j"
proof -
  have "tbl ! nibble_at R j < 16" using assms(2) nibble_at_less by blast
  from nibble_of_bits[OF this] show ?thesis
    using assms(1) by (simp add: nibble_at_def bitslice_def bit_word_of_bits)
qed

lemma word_of_bits_nibble:
  "word_of_bits (\<lambda>j. bit (nibble_at (a, b, c, d) j) 0) = a"
  "word_of_bits (\<lambda>j. bit (nibble_at (a, b, c, d) j) 1) = b"
  "word_of_bits (\<lambda>j. bit (nibble_at (a, b, c, d) j) 2) = c"
  "word_of_bits (\<lambda>j. bit (nibble_at (a, b, c, d) j) 3) = d"
  "word_of_bits (\<lambda>j. bit (nibble_at (a, b, c, d) j) (Suc 0)) = b"
  by (rule bit_word_eqI; simp add: bit_word_of_bits nibble_at_def nibble_bits)+

lemma bitslice_inverse:
  assumes f: "\<forall>n < 16. f ! n < 16" and gf: "\<forall>n < 16. g ! (f ! n) = n"
  shows "bitslice g (bitslice f R) = R"
proof -
  obtain a b c d where R: "R = (a, b, c, d)" by (cases R) auto
  have n: "\<And>j. j < 32 \<Longrightarrow> g ! nibble_at (bitslice f R) j = nibble_at R j"
    using nibble_at_bitslice[OF _ f] gf nibble_at_less by simp
  have w: "\<And>p q. (\<And>j. j < 32 \<Longrightarrow> p j = q j) \<Longrightarrow> word_of_bits p = word_of_bits q"
    by (rule bit_word_eqI) (simp add: bit_word_of_bits)
  have "bitslice g (bitslice f R) =
     (word_of_bits (\<lambda>j. bit (nibble_at R j) 0), word_of_bits (\<lambda>j. bit (nibble_at R j) 1),
      word_of_bits (\<lambda>j. bit (nibble_at R j) 2), word_of_bits (\<lambda>j. bit (nibble_at R j) 3))"
    unfolding bitslice_def[of g] by (auto intro!: w simp: n)
  then show ?thesis by (simp add: R word_of_bits_nibble)
qed

lemma all_less_16:
  "(\<forall>n < 16. Q (n::nat)) \<longleftrightarrow>
     Q 0 \<and> Q 1 \<and> Q 2 \<and> Q 3 \<and> Q 4 \<and> Q 5 \<and> Q 6 \<and> Q 7 \<and> Q 8 \<and> Q 9 \<and> Q 10 \<and> Q 11
     \<and> Q 12 \<and> Q 13 \<and> Q 14 \<and> Q 15"
proof -
  have "(\<forall>n < 16. Q n) \<longleftrightarrow> (\<forall>n \<in> {0, 1, 2, 3, 4, 5, 6, 7, 8, 9, 10, 11, 12, 13, 14, 15}. Q n)"
    using lt16_cases by auto
  then show ?thesis by simp
qed

lemma all_less_8:
  "(\<forall>i < 8. Q (i::nat)) \<longleftrightarrow> Q 0 \<and> Q 1 \<and> Q 2 \<and> Q 3 \<and> Q 4 \<and> Q 5 \<and> Q 6 \<and> Q 7"
proof -
  have "(\<forall>n < 8. Q n) \<longleftrightarrow> (\<forall>n \<in> {0, 1, 2, 3, 4, 5, 6, 7}. Q n)"
    using lt8_cases by auto
  then show ?thesis by simp
qed

lemma Serpent_Sbox_inverse_ok:
  "i < 8 \<Longrightarrow> bitslice (Serpent_Sbox_inverse i) (bitslice (Serpent_Sbox i) R) = R"
proof (rule bitslice_inverse)
  assume "i < 8"
  then have i: "i \<in> {0, 1, 2, 3, 4, 5, 6, 7}" by (rule lt8_cases)
  show "\<forall>n < 16. Serpent_Sbox i ! n < 16"
    unfolding all_less_16 using i by (elim insertE emptyE) (simp_all add: Serpent_Sbox_def)
  show "\<forall>n < 16. Serpent_Sbox_inverse i ! (Serpent_Sbox i ! n) = n"
    unfolding all_less_16 using i
    by (elim insertE emptyE) (simp_all add: Serpent_Sbox_def Serpent_Sbox_inverse_def)
qed

lemma xor3_cancel: "(p XOR q XOR r) XOR q XOR r = (p :: uint)"
  by (rule bit_eqI) (auto simp: bit_xor_iff)

lemma Serpent_LT_inverse_ok: "Serpent_LT_inverse (Serpent_LT R) = R"
proof -
  obtain a b c d where R: "R = (a, b, c, d)" by (cases R) auto
  define y0 where "y0 = word_rotl 13 a"
  define y2 where "y2 = word_rotl 3 c"
  define y1 where "y1 = b XOR y0 XOR y2"
  define y3 where "y3 = d XOR y2 XOR push_bit 3 y0"
  define z1 where "z1 = word_rotl 1 y1"
  define z3 where "z3 = word_rotl 7 y3"
  define z0 where "z0 = y0 XOR z1 XOR z3"
  define z2 where "z2 = y2 XOR z3 XOR push_bit 7 z1"
  have lt: "Serpent_LT (a, b, c, d) = (word_rotl 5 z0, z1, word_rotl 22 z2, z3)"
    by (simp add: Serpent_LT_def Let_def y0_def y2_def y1_def y3_def z1_def z3_def z0_def z2_def)
  have a: "word_rotr 13 y0 = a" and c: "word_rotr 3 y2 = c"
    and y1: "word_rotr 1 z1 = y1" and y3: "word_rotr 7 z3 = y3"
    by (simp_all add: y0_def y2_def z1_def z3_def)
  have y2: "z2 XOR z3 XOR push_bit 7 z1 = y2" unfolding z2_def by (rule xor3_cancel)
  have y0: "z0 XOR z1 XOR z3 = y0" unfolding z0_def by (rule xor3_cancel)
  have d: "y3 XOR y2 XOR push_bit 3 y0 = d" unfolding y3_def by (rule xor3_cancel)
  have b: "y1 XOR y0 XOR y2 = b" unfolding y1_def by (rule xor3_cancel)
  have "Serpent_LT_inverse (word_rotl 5 z0, z1, word_rotl 22 z2, z3) = (a, b, c, d)"
    by (simp only: Serpent_LT_inverse_def Let_def prod.case word_rot_rl word_rot_lr y2 y0 y1 y3 d b a c)
  then show ?thesis by (simp only: R lt)
qed

lemma Serpent_published_inverse: "Serpent_inverse Serpent_published"
  by (simp add: Serpent_inverse_def Serpent_published_def Serpent_Sbox_inverse_ok
      Serpent_LT_inverse_ok)

section \<open>SHX: construction and key schedule\<close>

lemma SHX_new_fields:
  assumes "SHX_new d r = Inr s"
  shows "m_expKey s = []" "m_kdfEngine s = d" "m_rndCount s = r" "\<not> m_isInitialized s"
    "\<not> m_isEncryption s" "r \<in> {32, 40, 48, 56, 64}" "m_kdfInfo s = DEF_DSTINFO"
proof -
  have r: "r \<le> 64 \<and> r \<ge> 32 \<and> r mod 8 = 0"
    using assms by (simp add: SHX_new_def split: if_splits)
  then show "r \<in> {32, 40, 48, 56, 64}" by auto
  show "m_expKey s = []" "m_kdfEngine s = d" "m_rndCount s = r" "\<not> m_isInitialized s"
    "\<not> m_isEncryption s" "m_kdfInfo s = DEF_DSTINFO"
    using assms r by (auto simp: SHX_new_def LoadState_def Let_def split: option.splits)
qed

lemma SHX_new_standard:
  assumes "SHX_new None r = Inr s"
  shows "s = \<lparr>m_cprKeySize = 0, m_expKey = [], m_kdfEngine = None, m_kdfInfo = DEF_DSTINFO,
              m_kdfInfoMax = 0, m_kdfKeySize = 0, m_isEncryption = False,
              m_isInitialized = False,
              m_legalKeySizes =
               [\<lparr>KeySize = 16, NonceSize = 16, InfoSize = 0\<rparr>,
                \<lparr>KeySize = 24, NonceSize = 16, InfoSize = 0\<rparr>,
                \<lparr>KeySize = 32, NonceSize = 16, InfoSize = 0\<rparr>,
                \<lparr>KeySize = 64, NonceSize = 16, InfoSize = 0\<rparr>],
              m_legalRounds = [32, 40], m_rndCount = r\<rparr>"
  using assms by (auto simp: SHX_new_def LoadState_def split: if_splits)

lemma StandardExpand_shape:
  "\<exists>ek. \<forall>s. StandardExpand P s K =
            s\<lparr>m_rndCount := (if length K = 64 then 40 else 32), m_expKey := ek\<rparr>"
proof -
  obtain Wk cnt where
    "StandardExpand_sboxes P (StandardExpand_Wk (PHI P) K) 0
        (4 * ((if length K = 64 then 40 else 32) + 1)) = (Wk, cnt)"
    by (cases "StandardExpand_sboxes P (StandardExpand_Wk (PHI P) K) 0
        (4 * ((if length K = 64 then 40 else 32) + 1))") blast
  then have "\<forall>s. StandardExpand P s K =
            s\<lparr>m_rndCount := (if length K = 64 then 40 else 32), m_expKey := Sb_at P 3 Wk cnt\<rparr>"
    by (simp add: StandardExpand_def Let_def)
  then show ?thesis ..
qed

lemma StandardExpand_rndCount:
  "m_rndCount (StandardExpand P s K) = (if length K = 64 then 40 else 32)"
  by (simp add: StandardExpand_def Let_def split: prod.splits)

text \<open>
  Claim C9.  In standard mode (no digest) the rounds argument of the constructor has no
  effect after \<open>Initialize\<close>: instances constructed with different legal round counts
  are initialized to the same state, and \<open>Rounds\<close> is then 40 for a 64-byte key and 32
  for the other legal keys.
\<close>

theorem SHX_standard_rounds_from_key:
  assumes "SHX_new None r1 = Inr s1" and "SHX_new None r2 = Inr s2"
  shows "Rounds s1 = r1 \<and> Rounds s2 = r2
    \<and> Initialize P hkdf s1 Encryption KeyParams = Initialize P hkdf s2 Encryption KeyParams
    \<and> (\<forall>s'. Initialize P hkdf s1 Encryption KeyParams = Inr s' \<longrightarrow>
           Rounds s' = (if length (sk_Key KeyParams) = 64 then 40 else 32))"
proof -
  note a = SHX_new_standard[OF assms(1)] and b = SHX_new_standard[OF assms(2)]
  have e: "s1 = s2\<lparr>m_rndCount := r1\<rparr>" by (simp add: a b)
  obtain ek where ek: "\<And>s. StandardExpand P s (sk_Key KeyParams) =
            s\<lparr>m_rndCount := (if length (sk_Key KeyParams) = 64 then 40 else 32), m_expKey := ek\<rparr>"
    using StandardExpand_shape[of P "sk_Key KeyParams"] by blast
  have "Initialize P hkdf (s2\<lparr>m_rndCount := r1\<rparr>) Encryption KeyParams
          = Initialize P hkdf s2 Encryption KeyParams"
    by (simp add: Initialize_def ExpandKey_def b Let_def ek)
  moreover have "\<forall>s'. Initialize P hkdf s1 Encryption KeyParams = Inr s' \<longrightarrow>
           Rounds s' = (if length (sk_Key KeyParams) = 64 then 40 else 32)"
    by (auto simp: Initialize_def ExpandKey_def a Let_def Rounds_def StandardExpand_rndCount
        split: if_splits)
  ultimately show ?thesis using e by (simp add: Rounds_def a b)
qed

theorem SHX_standard_rounds_from_key_witness:
  "SHX_new None 64 = Inr (projr (SHX_new None 64))
   \<and> SHX_new None 32 = Inr (projr (SHX_new None 32))
   \<and> Rounds (projr (SHX_new None 64)) = 64 \<and> Rounds (projr (SHX_new None 32)) = 32
   \<and> Initialize Serpent_published toy_hkdf (projr (SHX_new None 64)) True
         \<lparr>sk_Key = replicate 16 0, sk_Nonce = [], sk_Info = []\<rparr>
       = Initialize Serpent_published toy_hkdf (projr (SHX_new None 32)) True
           \<lparr>sk_Key = replicate 16 0, sk_Nonce = [], sk_Info = []\<rparr>
   \<and> (\<exists>s'. Initialize Serpent_published toy_hkdf (projr (SHX_new None 64)) True
               \<lparr>sk_Key = replicate 16 0, sk_Nonce = [], sk_Info = []\<rparr> = Inr s'
            \<and> Rounds s' = 32)"
proof -
  have a: "SHX_new None 64 = Inr (projr (SHX_new None 64))"
    and b: "SHX_new None 32 = Inr (projr (SHX_new None 32))"
    by (simp_all add: SHX_new_def)
  have "\<exists>s'. Initialize Serpent_published toy_hkdf (projr (SHX_new None 64)) True
               \<lparr>sk_Key = replicate 16 0, sk_Nonce = [], sk_Info = []\<rparr> = Inr s'"
    by (simp add: Initialize_def SHX_new_def LoadState_def Contains_def Let_def)
  with SHX_standard_rounds_from_key[OF a b, of Serpent_published toy_hkdf True
      "\<lparr>sk_Key = replicate 16 0, sk_Nonce = [], sk_Info = []\<rparr>"] a b
  show ?thesis by auto
qed

lemma length_DEF_DSTINFO [simp]: "length DEF_DSTINFO = 32"
  by (simp add: DEF_DSTINFO_def)

lemma SecureExpand_expKey:
  "m_expKey (SecureExpand hkdf s d K) =
     generator_words hkdf d (SecureExpand_setup d (m_kdfInfo s) K) (4 * (m_rndCount s + 1))"
  by (simp add: SecureExpand_def generator_words_def Let_def mult.commute add.commute)

lemma SHX_new_SHA512:
  assumes "SHX_new (Some (SHA512_parameters H)) r = Inr s"
  shows "m_kdfInfoMax s = 110" "m_rndCount s = r" "m_kdfInfo s = DEF_DSTINFO"
    "m_kdfEngine s = Some (SHA512_parameters H)"
    "Contains (m_legalKeySizes s) n \<longleftrightarrow> n \<in> {64, 128, 256}"
  using assms
  by (auto simp: SHX_new_def LoadState_def Let_def SHA512_parameters_def size_t_sub_def
      Contains_def BLOCK_SIZE_def split: if_splits)

text \<open>
  Claim C3, as amended.  With SHA-512 (block size 128) a 64-byte key, like a 128-byte
  key, does not exceed the block size: the generator is set up to expand only, with the
  whole key and the distribution code as info.  The branch that extracts first is taken
  by the 256-byte key: the first 128 bytes are the key, the other 128 bytes the salt.
\<close>

theorem SHX_SHA512_HKDF_branch:
  assumes "SHX_new (Some (SHA512_parameters H)) r = Inr s"
    and "length (sk_Key KeyParams) \<in> {64, 128, 256}"
    and "length (sk_Info KeyParams) \<le> 110"
  shows "\<exists>s'. Initialize P hkdf s Encryption KeyParams = Inr s'
    \<and> m_expKey s' =
        generator_words hkdf (SHA512_parameters H)
          (let info = (if sk_Info KeyParams = [] then DEF_DSTINFO else sk_Info KeyParams)
           in if length (sk_Key KeyParams) = 256
              then Extract_Expand (take 128 (sk_Key KeyParams)) (drop 128 (sk_Key KeyParams)) info
              else Expand_only (Some info) (sk_Key KeyParams))
          (4 * (r + 1))"
proof -
  note f = SHX_new_SHA512[OF assms(1)]
  have i: "sk_Info KeyParams \<noteq> [] \<Longrightarrow> length (sk_Info KeyParams) \<noteq> 0" by simp
  show ?thesis
    using assms(2,3)
    by (auto simp: Initialize_def f ExpandKey_def Let_def SecureExpand_expKey
        SecureExpand_setup_def SHA512_parameters_def)
qed


theorem SHX_SHA512_HKDF_branch_witness:
  "SHX_new (Some (SHA512_parameters (Compute toy_digest))) 32
     = Inr (projr (SHX_new (Some (SHA512_parameters (Compute toy_digest))) 32))
   \<and> length (sk_Key \<lparr>sk_Key = replicate 64 0, sk_Nonce = [], sk_Info = []\<rparr>) \<in> {64, 128, 256}
   \<and> length (sk_Info \<lparr>sk_Key = replicate 64 0, sk_Nonce = [], sk_Info = []\<rparr>) \<le> 110
   \<and> (\<exists>s'. Initialize Serpent_published toy_hkdf
               (projr (SHX_new (Some (SHA512_parameters (Compute toy_digest))) 32)) True
               \<lparr>sk_Key = replicate 64 0, sk_Nonce = [], sk_Info = []\<rparr> = Inr s'
          \<and> m_expKey s' =
              generator_words toy_hkdf (SHA512_parameters (Compute toy_digest))
                (Expand_only (Some DEF_DSTINFO) (replicate 64 0)) 132)"
proof -
  have a: "SHX_new (Some (SHA512_parameters (Compute toy_digest))) 32
     = Inr (projr (SHX_new (Some (SHA512_parameters (Compute toy_digest))) 32))"
    by (simp add: SHX_new_def)
  have b: "length (sk_Key \<lparr>sk_Key = replicate 64 0, sk_Nonce = [], sk_Info = []\<rparr>) \<in> {64, 128, 256}"
    and c: "length (sk_Info \<lparr>sk_Key = replicate 64 0, sk_Nonce = [], sk_Info = []\<rparr>) \<le> 110"
    by simp_all
  from SHX_SHA512_HKDF_branch[OF a b c, of Serpent_published toy_hkdf True] a
  show ?thesis by simp
qed

text \<open>
  Claim C3 as stated fails: SHX over SHA-512 accepts a 64-byte key, and for it
  \<open>SecureExpand\<close> sets the generator up to expand only, with the whole key.
\<close>

theorem SHX_SHA512_key64_counterexample:
  "Contains (LegalKeySizes (projr (SHX_new (Some (SHA512_parameters (Compute toy_digest))) 32))) 64
   \<and> SecureExpand_setup (SHA512_parameters (Compute toy_digest)) DEF_DSTINFO (replicate 64 0)
       = Expand_only (Some DEF_DSTINFO) (replicate 64 0)"
  by (simp add: SecureExpand_setup_def SHA512_parameters_def SHX_new_def LoadState_def
      LegalKeySizes_def Contains_def Let_def)

lemma LoadBlock_OutOfRange: "LoadBlock Input InOffset = Inl e \<Longrightarrow> e = OutOfRange"
  by (auto simp: LoadBlock_def LeBytesTo32_def and_then_Inl_iff split: if_splits)

lemma Encrypt128_empty_key:
  assumes "m_expKey s = []"
  shows "Encrypt128 P s Input InOffset Output OutOffset = Inl OutOfRange"
proof (cases "LoadBlock Input InOffset")
  case (Inl e)
  then show ?thesis using LoadBlock_OutOfRange[OF Inl] by (simp add: Encrypt128_def)
next
  case (Inr R)
  have "Encrypt128_loop P [] (size_t_sub 0 4) 0 R = Inl OutOfRange"
    by (subst Encrypt128_loop.simps) simp
  then show ?thesis using Inr assms by (simp add: Encrypt128_def)
qed

lemma Decrypt128_empty_key:
  assumes "m_expKey s = []"
  shows "Decrypt128 P s Input InOffset Output OutOffset = Inl OutOfRange"
proof (cases "LoadBlock Input InOffset")
  case (Inl e)
  then show ?thesis using LoadBlock_OutOfRange[OF Inl] by (simp add: Decrypt128_def)
next
  case (Inr R)
  then show ?thesis using assms by (simp add: Decrypt128_def)
qed

text \<open>
  Claim C6, as amended.  \<open>Transform\<close>, \<open>EncryptBlock\<close> and \<open>DecryptBlock\<close> do not test
  whether \<open>Initialize\<close> was called and raise no exception for it: on an instance as
  constructed the expanded key is empty, and for every input the access to the first
  subkey (or to the input) is out of range.  Prior \<open>Initialize\<close> is a precondition.
\<close>

theorem SHX_uninitialized_out_of_range:
  assumes "SHX_new Digest r = Inr s"
  shows "Transform P s Input InOffset Output OutOffset = Inl OutOfRange
    \<and> EncryptBlock P s Input Output = Inl OutOfRange
    \<and> DecryptBlock P s Input Output = Inl OutOfRange
    \<and> \<not> raises_exception (Transform P s Input InOffset Output OutOffset)"
  using SHX_new_fields(1)[OF assms]
  by (simp add: Transform_def EncryptBlock_def DecryptBlock_def Encrypt128_empty_key
      Decrypt128_empty_key)

theorem SHX_uninitialized_out_of_range_witness:
  "SHX_new None 32 = Inr (projr (SHX_new None 32))
   \<and> Transform Serpent_published (projr (SHX_new None 32)) (replicate 16 0) 0 (replicate 16 0) 0
       = Inl OutOfRange
   \<and> EncryptBlock Serpent_published (projr (SHX_new None 32)) (replicate 16 0) (replicate 16 0)
       = Inl OutOfRange"
proof -
  have a: "SHX_new None 32 = Inr (projr (SHX_new None 32))" by (simp add: SHX_new_def)
  from SHX_uninitialized_out_of_range[OF a] a show ?thesis by simp
qed

text \<open>
  Claim C6 as stated fails: a transform on an instance that was constructed but not
  initialized does not end in an exception.
\<close>

theorem SHX_uninitialized_counterexample:
  "SHX_new None 32 = Inr (projr (SHX_new None 32))
   \<and> \<not> m_isInitialized (projr (SHX_new None 32))
   \<and> Transform Serpent_published (projr (SHX_new None 32)) (replicate 16 0) 0 (replicate 16 0) 0
       = Inl OutOfRange
   \<and> \<not> raises_exception
         (Transform Serpent_published (projr (SHX_new None 32)) (replicate 16 0) 0
            (replicate 16 0) 0)"
proof -
  have a: "SHX_new None 32 = Inr (projr (SHX_new None 32))" by (simp add: SHX_new_def)
  have "m_expKey (projr (SHX_new None 32)) = []" by (rule SHX_new_fields(1)[OF a])
  then have "Transform Serpent_published (projr (SHX_new None 32)) (replicate 16 0) 0 (replicate 16 0) 0
       = Inl OutOfRange"
    by (simp add: Transform_def Encrypt128_empty_key Decrypt128_empty_key)
  then show ?thesis using a SHX_new_fields(4)[OF a] by simp
qed

section \<open>SHX: the transforms\<close>

lemma length_block_bytes [simp]: "length (block_bytes R) = 16"
  by (cases R) (simp add: block_bytes_def)

lemma store_append_4:
  "length a = 4 \<Longrightarrow>
   and_then (store a Output OutOffset) (\<lambda>Output. store bs Output (OutOffset + 4))
     = store (a @ bs) Output OutOffset"
  by (auto simp: store_def add.assoc add.commute add.left_commute)

lemma StoreBlock_store: "StoreBlock R Output OutOffset = store (block_bytes R) Output OutOffset"
proof -
  obtain R0 R1 R2 R3 where R: "R = (R0, R1, R2, R3)" by (cases R) auto
  let ?b = "\<lambda>w :: uint. [ucast w, ucast (drop_bit 8 w), ucast (drop_bit 16 w), ucast (drop_bit 24 w) :: byte]"
  have "StoreBlock R Output OutOffset =
      and_then (store (?b R0) Output OutOffset) (\<lambda>Output.
        and_then (store (?b R1) Output (OutOffset + 4)) (\<lambda>Output.
          and_then (store (?b R2) Output (OutOffset + 4 + 4)) (\<lambda>Output.
            store (?b R3) Output (OutOffset + 4 + 4 + 4))))"
    by (simp add: StoreBlock_def R Le32ToBytes_def add.assoc)
  also have "\<dots> = and_then (store (?b R0) Output OutOffset) (\<lambda>Output.
        and_then (store (?b R1) Output (OutOffset + 4)) (\<lambda>Output.
          store (?b R2 @ ?b R3) Output (OutOffset + 4 + 4)))"
    by (subst store_append_4) simp_all
  also have "\<dots> = and_then (store (?b R0) Output OutOffset) (\<lambda>Output.
          store (?b R1 @ ?b R2 @ ?b R3) Output (OutOffset + 4))"
    by (subst store_append_4) simp_all
  also have "\<dots> = store (?b R0 @ ?b R1 @ ?b R2 @ ?b R3) Output OutOffset"
    by (subst store_append_4) simp_all
  finally show ?thesis by (simp add: block_bytes_def R)
qed


lemma LoadBlock_eq:
  "LoadBlock Input InOffset =
     (if InOffset + 16 \<le> length Input then Inr (block_words (take 16 (drop InOffset Input)))
      else Inl OutOfRange)"
  by (auto simp: LoadBlock_def LeBytesTo32_def block_words_def add.commute)

lemma Encrypt128_eq:
  "Encrypt128 P s Input InOffset Output OutOffset =
     and_then (LoadBlock Input InOffset) (\<lambda>R.
       and_then (Encrypt128_words P (m_expKey s) R) (\<lambda>C.
         store (block_bytes C) Output OutOffset))"
proof (cases "LoadBlock Input InOffset")
  case (Inl e)
  then show ?thesis by (simp add: Encrypt128_def)
next
  case (Inr R)
  show ?thesis
  proof (cases "Encrypt128_loop P (m_expKey s) (size_t_sub (length (m_expKey s)) 4) 0 R")
    case (Inl e)
    then show ?thesis using Inr by (simp add: Encrypt128_def Encrypt128_words_def)
  next
    case r: (Inr x)
    then show ?thesis
      using Inr by (cases x) (simp add: Encrypt128_def Encrypt128_words_def StoreBlock_store)
  qed
qed

lemma Decrypt128_eq:
  "Decrypt128 P s Input InOffset Output OutOffset =
     and_then (LoadBlock Input InOffset) (\<lambda>R.
       and_then (Decrypt128_words P (m_expKey s) R) (\<lambda>C.
         store (block_bytes C) Output OutOffset))"
proof (cases "LoadBlock Input InOffset")
  case (Inl e)
  then show ?thesis by (simp add: Decrypt128_def)
next
  case (Inr R)
  show ?thesis
  proof (cases "length (m_expKey s) < 4")
    case True
    then show ?thesis using Inr by (simp add: Decrypt128_def Decrypt128_words_def)
  next
    case False
    show ?thesis
    proof (cases "Decrypt128_loop P (m_expKey s) (length (m_expKey s) - 4)
                    (AddKey (m_expKey s) (length (m_expKey s) - 4) R)")
      case (Inl e)
      then show ?thesis using Inr False by (simp add: Decrypt128_def Decrypt128_words_def)
    next
      case r: (Inr x)
      then show ?thesis
        using Inr False by (cases x) (simp add: Decrypt128_def Decrypt128_words_def StoreBlock_store)
    qed
  qed
qed

lemma Transform_eq:
  "Transform P s Input InOffset Output OutOffset =
     and_then (LoadBlock Input InOffset) (\<lambda>R.
       and_then (Transform_words P s R) (\<lambda>C. store (block_bytes C) Output OutOffset))"
  by (simp add: Transform_def Transform_words_def Encrypt128_eq Decrypt128_eq)

text \<open>The transform of a block on its own, into a fresh block of sixteen bytes.\<close>

lemma Transform_single:
  assumes "length blk = 16"
  shows "Transform P s blk 0 (replicate 16 0) 0 =
           and_then (Transform_words P s (block_words blk)) (\<lambda>C. Inr (block_bytes C))"
proof -
  have "\<And>C. store (block_bytes C) (replicate 16 0) 0 = Inr (block_bytes C)"
    by (simp add: store_def)
  then show ?thesis using assms by (simp add: Transform_eq LoadBlock_eq)
qed

text \<open>
  A successful transform at offsets reads one block of the input, and replaces one
  block of the output by the transform of that block on its own.
\<close>

lemma Transform_Inr:
  assumes "Transform P s Input InOffset Output OutOffset = Inr Output'"
  shows "InOffset + 16 \<le> length Input \<and> OutOffset + 16 \<le> length Output
    \<and> (\<exists>c. length c = 16
          \<and> Transform P s (take 16 (drop InOffset Input)) 0 (replicate 16 0) 0 = Inr c
          \<and> Output' = take OutOffset Output @ c @ drop (OutOffset + 16) Output)"
proof -
  from assms obtain R C where
    l: "LoadBlock Input InOffset = Inr R" and t: "Transform_words P s R = Inr C"
    and st: "store (block_bytes C) Output OutOffset = Inr Output'"
    by (auto simp: Transform_eq and_then_Inr_iff)
  have i: "InOffset + 16 \<le> length Input" and R: "R = block_words (take 16 (drop InOffset Input))"
    using l by (auto simp: LoadBlock_eq split: if_splits)
  have o: "OutOffset + 16 \<le> length Output"
    and O: "Output' = take OutOffset Output @ block_bytes C @ drop (OutOffset + 16) Output"
    using st by (auto simp: store_def split: if_splits)
  have "Transform P s (take 16 (drop InOffset Input)) 0 (replicate 16 0) 0 = Inr (block_bytes C)"
    using i t R by (simp add: Transform_single)
  then show ?thesis using i o O by auto
qed

lemma Transform_blocks_Inr:
  assumes "Transform_blocks P s Input InOffset Output OutOffset n = Inr Output'"
  shows "length Output' = length Output
    \<and> (0 < n \<longrightarrow> InOffset + 16 * n \<le> length Input \<and> OutOffset + 16 * n \<le> length Output)
    \<and> take OutOffset Output' = take OutOffset Output
    \<and> drop (OutOffset + 16 * n) Output' = drop (OutOffset + 16 * n) Output
    \<and> (\<forall>i < n. Transform P s (take 16 (drop (InOffset + 16 * i) Input)) 0 (replicate 16 0) 0
                  = Inr (take 16 (drop (OutOffset + 16 * i) Output')))"
  using assms
proof (induction n arbitrary: Output')
  case 0
  then show ?case by simp
next
  case (Suc n)
  from Suc.prems obtain Out1 where
    b: "Transform_blocks P s Input InOffset Output OutOffset n = Inr Out1"
    and t: "Transform P s Input (InOffset + 16 * n) Out1 (OutOffset + 16 * n) = Inr Output'"
    by (auto simp: and_then_Inr_iff)
  note ih = Suc.IH[OF b]
  from Transform_Inr[OF t] obtain c where
    i: "InOffset + 16 * n + 16 \<le> length Input" and o: "OutOffset + 16 * n + 16 \<le> length Out1"
    and lc: "length c = 16"
    and c: "Transform P s (take 16 (drop (InOffset + 16 * n) Input)) 0 (replicate 16 0) 0 = Inr c"
    and O: "Output' = take (OutOffset + 16 * n) Out1 @ c @ drop (OutOffset + 16 * n + 16) Out1"
    by auto
  have l1: "length Out1 = length Output" using ih by simp
  have len: "length Output' = length Output" using o lc l1 by (simp add: O)
  have tk: "take OutOffset Output' = take OutOffset Output"
    using ih o by (simp add: O min_def)
  have dr: "drop (OutOffset + 16 * Suc n) Output' = drop (OutOffset + 16 * Suc n) Output"
  proof -
    have e: "OutOffset + 16 * Suc n = 16 + (OutOffset + 16 * n)" by simp
    have "drop (16 + (OutOffset + 16 * n)) Output' = drop (16 + (OutOffset + 16 * n)) Out1"
      using o lc by (simp add: O add.commute)
    also have "\<dots> = drop 16 (drop (OutOffset + 16 * n) Out1)" by (simp only: drop_drop)
    also have "\<dots> = drop 16 (drop (OutOffset + 16 * n) Output)" using ih by simp
    also have "\<dots> = drop (16 + (OutOffset + 16 * n)) Output" by (simp only: drop_drop)
    finally show ?thesis unfolding e .
  qed
  have blocks: "Transform P s (take 16 (drop (InOffset + 16 * i) Input)) 0 (replicate 16 0) 0
                  = Inr (take 16 (drop (OutOffset + 16 * i) Output'))" if "i < Suc n" for i
  proof (cases "i < n")
    case True
    have "take 16 (drop (OutOffset + 16 * i) Output')
        = take 16 (drop (OutOffset + 16 * i) (take (OutOffset + 16 * n) Out1))"
      using True o by (simp add: O)
    also have "\<dots> = take 16 (drop (OutOffset + 16 * i) Out1)"
      using True by (simp add: drop_take)
    finally show ?thesis using ih True by simp
  next
    case False
    then have "i = n" using that by simp
    moreover have "take 16 (drop (OutOffset + 16 * n) Output') = c"
      using o lc by (simp add: O)
    ultimately show ?thesis using c by simp
  qed
  show ?case using len tk dr blocks i o l1 by simp
qed


lemma Transform_blocks_numeral:
  "Transform_blocks P s Input InOffset Output OutOffset (numeral k) =
     and_then (Transform_blocks P s Input InOffset Output OutOffset (pred_numeral k))
       (\<lambda>Output. Transform P s Input (InOffset + 16 * pred_numeral k) Output
                    (OutOffset + 16 * pred_numeral k))"
  by (simp add: numeral_eq_Suc)

lemma AddKey_AddKey [simp]: "AddKey k c (AddKey k c R) = R"
  by (cases R) (simp add: AddKey_def xor.assoc)

lemma Serpent_inverse_Ib: "Serpent_inverse P \<Longrightarrow> i < 8 \<Longrightarrow> Ib P i (Sb P i R) = R"
  unfolding Serpent_inverse_def by blast

lemma Serpent_inverse_LT: "Serpent_inverse P \<Longrightarrow> InverseTransform P (LinearTransform P R) = R"
  unfolding Serpent_inverse_def by blast

lemma size_t_sub_le: "b \<le> a \<Longrightarrow> a < 2 ^ 64 \<Longrightarrow> size_t_sub a b = a - b"
proof -
  assume a: "b \<le> a" "a < 2 ^ 64"
  have m: "b mod 2 ^ 64 = b" using a by simp
  have e: "a + 2 ^ 64 - b = (a - b) + 2 ^ 64" using a by linarith
  have l: "a - b < 2 ^ 64" using a by linarith
  have "size_t_sub a b = ((a - b) + 2 ^ 64) mod 2 ^ 64"
    by (simp only: size_t_sub_def m e)
  also have "\<dots> = (a - b) mod 2 ^ 64" by (rule mod_add_self2)
  also have "\<dots> = a - b" using l by (rule mod_less)
  finally show ?thesis .
qed

text \<open>A pass of the decryption loop undoes a pass of the encryption loop, up to the
  first group of subkeys.\<close>

lemma Decrypt128_pass_Encrypt128_pass:
  assumes "Serpent_inverse P"
  shows "Decrypt128_pass P k (c + 32) (Encrypt128_pass P k c R) = AddKey k c R"
proof -
  have e: "c + 32 - 4 = c + 28" "c + 32 - 8 = c + 24" "c + 32 - 12 = c + 20"
    "c + 32 - 16 = c + 16" "c + 32 - 20 = c + 12" "c + 32 - 24 = c + 8" "c + 32 - 28 = c + 4"
    by simp_all
  show ?thesis
    unfolding Decrypt128_pass_def Encrypt128_pass_def Let_def e
    by (simp add: Serpent_inverse_Ib[OF assms] Serpent_inverse_LT[OF assms])
qed

lemma Decrypt128_loop_step:
  assumes "Serpent_inverse P" and "c + 32 \<le> length k"
  shows "Decrypt128_loop P k (c + 32) (Encrypt128_pass P k c R) =
           (if c = 0 then Inr (4, AddKey k 0 R)
            else Decrypt128_loop P k c (InverseTransform P R))"
proof -
  have g: "\<not> (c + 32 < 28 \<or> length k < c + 32)" using assms(2) by simp
  have e: "c + 32 - 28 = c + 4" by simp
  show ?thesis
    by (subst Decrypt128_loop.simps)
       (simp only: g if_False Let_def Decrypt128_pass_Encrypt128_pass[OF assms(1)] e, simp)
qed

lemma Encrypt128_loop_Decrypt128_loop:
  assumes "Serpent_inverse P"
    and "Encrypt128_loop P k N c R = Inr (n, R')"
  shows "n = N \<and> N \<le> length k
    \<and> Decrypt128_loop P k N R' =
         (if c = 0 then Inr (4, AddKey k 0 R)
          else Decrypt128_loop P k c (InverseTransform P R))"
  using assms
proof (induction P k N c R rule: Encrypt128_loop.induct)
  case (1 P k N c R)
  note inv = "1.prems"(1) and enc = "1.prems"(2)
  have g: "\<not> length k < c + 32"
    using enc by (subst (asm) Encrypt128_loop.simps) (auto split: if_splits)
  then have le: "c + 32 \<le> length k" by simp
  note step = Decrypt128_loop_step[OF inv le, of R]
  show ?case
  proof (cases "c + 32 \<noteq> N")
    case True
    then have r: "Encrypt128_loop P k N (c + 32) (LinearTransform P (Encrypt128_pass P k c R))
                    = Inr (n, R')"
      using enc g by (subst (asm) Encrypt128_loop.simps) (simp add: Let_def)
    from "1.IH"[OF g refl refl True inv r]
    have "n = N" "N \<le> length k"
      and d: "Decrypt128_loop P k N R' =
           Decrypt128_loop P k (c + 32)
             (InverseTransform P (LinearTransform P (Encrypt128_pass P k c R)))"
      by simp_all
    then show ?thesis using step by (simp add: Serpent_inverse_LT[OF inv])
  next
    case False
    then have "n = c + 32" "R' = Encrypt128_pass P k c R"
      using enc g by (subst (asm) Encrypt128_loop.simps, simp add: Let_def)+
    then show ?thesis using False step le by auto
  qed
qed

text \<open>Decryption on words is a left inverse of encryption on words.\<close>

lemma Decrypt128_words_Encrypt128_words:
  assumes "Serpent_inverse P" and "length k < 2 ^ 64" and "Encrypt128_words P k R = Inr C"
  shows "Decrypt128_words P k C = Inr R"
proof -
  let ?N = "size_t_sub (length k) 4"
  from assms(3) obtain n R' where
    l: "Encrypt128_loop P k ?N 0 R = Inr (n, R')"
    and c: "\<not> length k < n + 4" and C: "C = AddKey k n R'"
    by (auto simp: Encrypt128_words_def and_then_Inr_iff split: if_splits)
  from Encrypt128_loop_Decrypt128_loop[OF assms(1) l]
  have n: "n = ?N" and d: "Decrypt128_loop P k ?N R' = Inr (4, AddKey k 0 R)" by simp_all
  have k4: "4 \<le> length k" using c by simp
  have N: "?N = length k - 4" by (rule size_t_sub_le[OF k4 assms(2)])
  show ?thesis
    using k4 d by (simp add: Decrypt128_words_def C n N)
qed


text \<open>Encryption on words returns when the key holds \<open>32 * m + 4\<close> words, \<open>m > 0\<close>.\<close>

lemma Encrypt128_loop_succeeds:
  assumes "c + 32 \<le> N" and "(N - c) mod 32 = 0" and "N \<le> length k"
  shows "\<exists>R'. Encrypt128_loop P k N c R = Inr (N, R')"
  using assms
proof (induction P k N c R rule: Encrypt128_loop.induct)
  case (1 P k N c R)
  have g: "\<not> length k < c + 32" using "1.prems" by simp
  show ?case
  proof (cases "c + 32 \<noteq> N")
    case True
    have "32 dvd (N - c)" using "1.prems"(2) by (simp add: dvd_eq_mod_eq_0)
    then obtain q where q: "N - c = 32 * q" by (auto simp: dvd_def)
    have "q \<noteq> 0" "q \<noteq> 1" using q True "1.prems"(1) by auto
    then have "2 \<le> q" by simp
    then have a: "c + 32 + 32 \<le> N" using q by simp
    have "N - (c + 32) = 32 * (q - 1)" using q by simp
    then have b: "(N - (c + 32)) mod 32 = 0" by simp
    from "1.IH"[OF g refl refl True a b "1.prems"(3)]
    obtain R' where "Encrypt128_loop P k N (c + 32) (LinearTransform P (Encrypt128_pass P k c R))
                      = Inr (N, R')"
      by blast
    then have "Encrypt128_loop P k N c R = Inr (N, R')"
      using g True by (subst Encrypt128_loop.simps) (simp add: Let_def)
    then show ?thesis by (rule exI)
  next
    case False
    then have "Encrypt128_loop P k N c R = Inr (N, Encrypt128_pass P k c R)"
      using g by (subst Encrypt128_loop.simps) (simp add: Let_def)
    then show ?thesis by (rule exI)
  qed
qed

lemma Encrypt128_words_succeeds:
  assumes "length k = 32 * m + 4" and "0 < m" and "length k < 2 ^ 64"
  shows "\<exists>C. Encrypt128_words P k R = Inr C"
proof -
  have N: "size_t_sub (length k) 4 = 32 * m"
    using size_t_sub_le[of 4 "length k"] assms by simp
  have "\<exists>R'. Encrypt128_loop P k (32 * m) 0 R = Inr (32 * m, R')"
    using assms by (intro Encrypt128_loop_succeeds) simp_all
  then obtain R' where "Encrypt128_loop P k (32 * m) 0 R = Inr (32 * m, R')" by blast
  then have "Encrypt128_words P k R = Inr (AddKey k (32 * m) R')"
    unfolding Encrypt128_words_def N using assms(1) by simp
  then show ?thesis by (rule exI)
qed

text \<open>Bytes and words of a block.\<close>

lemma le32_bytes [simp]:
  "le32 (ucast w) (ucast (drop_bit 8 w)) (ucast (drop_bit 16 w)) (ucast (drop_bit 24 w)) = w"
proof (rule bit_word_eqI)
  fix n :: nat
  assume "n < LENGTH(32)"
  then consider "n < 8" | "8 \<le> n" "n < 16" | "16 \<le> n" "n < 24" | "24 \<le> n" "n < 32"
    by fastforce
  then show "bit (le32 (ucast w) (ucast (drop_bit 8 w)) (ucast (drop_bit 16 w))
                   (ucast (drop_bit 24 w))) n = bit w n"
    unfolding le32_def
    by cases (auto simp add: bit_or_iff bit_push_bit_iff bit_ucast_iff bit_drop_bit_eq)
qed

lemma bytes_le32 [simp]:
  "ucast (le32 b0 b1 b2 b3) = b0" "ucast (drop_bit 8 (le32 b0 b1 b2 b3)) = b1"
  "ucast (drop_bit 16 (le32 b0 b1 b2 b3)) = b2" "ucast (drop_bit 24 (le32 b0 b1 b2 b3)) = b3"
  unfolding le32_def
  by (rule bit_word_eqI;
      auto simp: bit_or_iff bit_push_bit_iff bit_ucast_iff bit_drop_bit_eq dest: bit_imp_le_length)+

lemma block_words_block_bytes [simp]: "block_words (block_bytes R) = R"
  by (cases R) (simp add: block_words_def block_bytes_def)

lemma list16:
  assumes "length (bs :: 'a list) = 16"
  shows "bs = [bs ! 0, bs ! 1, bs ! 2, bs ! 3, bs ! 4, bs ! 5, bs ! 6, bs ! 7, bs ! 8, bs ! 9,
               bs ! 10, bs ! 11, bs ! 12, bs ! 13, bs ! 14, bs ! 15]"
proof (rule nth_equalityI)
  show "length bs = length [bs ! 0, bs ! 1, bs ! 2, bs ! 3, bs ! 4, bs ! 5, bs ! 6, bs ! 7, bs ! 8,
               bs ! 9, bs ! 10, bs ! 11, bs ! 12, bs ! 13, bs ! 14, bs ! 15]"
    using assms by simp
next
  fix i assume "i < length bs"
  then have "i < 16" using assms by simp
  then have "i \<in> {0, 1, 2, 3, 4, 5, 6, 7, 8, 9, 10, 11, 12, 13, 14, 15}" by (rule lt16_cases)
  then show "bs ! i = [bs ! 0, bs ! 1, bs ! 2, bs ! 3, bs ! 4, bs ! 5, bs ! 6, bs ! 7, bs ! 8,
               bs ! 9, bs ! 10, bs ! 11, bs ! 12, bs ! 13, bs ! 14, bs ! 15] ! i"
    by (elim insertE emptyE) simp_all
qed

lemma block_bytes_block_words:
  assumes "length bs = 16"
  shows "block_bytes (block_words bs) = bs"
  by (subst (2) list16[OF assms]) (simp add: block_words_def block_bytes_def)

lemma length_StandardExpand_copy:
  "length (fst (StandardExpand_copy K offset index Wp)) = length Wp"
  by (induction K offset index Wp rule: StandardExpand_copy.induct)
     (subst StandardExpand_copy.simps, simp)

lemma length_StandardExpand_poly8 [simp]:
  "length (StandardExpand_poly8 phi c W i n) = length W"
  by (induction phi c W i n rule: StandardExpand_poly8.induct)
     (subst StandardExpand_poly8.simps, simp)

lemma length_StandardExpand_poly16 [simp]:
  "length (StandardExpand_poly16 phi c W i n) = length W"
  by (induction phi c W i n rule: StandardExpand_poly16.induct)
     (subst StandardExpand_poly16.simps, simp)

lemma length_Sb_at [simp]: "length (Sb_at P i Wk cnt) = length Wk"
  by (simp add: Sb_at_def split: prod.splits)

lemma length_StandardExpand_sboxes:
  "length (fst (StandardExpand_sboxes P Wk cnt keySize)) = length Wk"
  by (induction P Wk cnt keySize rule: StandardExpand_sboxes.induct)
     (subst StandardExpand_sboxes.simps, simp add: Let_def)

lemma length_StandardExpand_Wp:
  "length (StandardExpand_Wp phi K) = (if length K < 32 then 16 else length K div 2)"
proof -
  obtain Wp index where
    c: "StandardExpand_copy K (length K) 0
          (replicate (if length K < 32 then 16 else length K div 2) 0) = (Wp, index)"
    by (cases "StandardExpand_copy K (length K) 0
          (replicate (if length K < 32 then 16 else length K div 2) 0)") blast
  have "length Wp = (if length K < 32 then 16 else length K div 2)"
    using length_StandardExpand_copy[of K "length K" 0
        "replicate (if length K < 32 then 16 else length K div 2) 0"]
    unfolding c by simp
  then show ?thesis
    unfolding StandardExpand_Wp_def Let_def c by (simp split: if_splits)
qed

lemma length_StandardExpand_Wk:
  assumes "length K \<in> {16, 24, 32, 64}"
  shows "length (StandardExpand_Wk phi K) = 4 * ((if length K = 64 then 40 else 32) + 1)"
  using assms by (auto simp: StandardExpand_Wk_def Let_def length_StandardExpand_Wp)

lemma length_StandardExpand:
  assumes "length K \<in> {16, 24, 32, 64}"
  shows "length (m_expKey (StandardExpand P s K)) = 4 * ((if length K = 64 then 40 else 32) + 1)"
proof -
  let ?n = "4 * ((if length K = 64 then 40 else 32) + 1)"
  obtain Wk cnt where
    c: "StandardExpand_sboxes P (StandardExpand_Wk (PHI P) K) 0 ?n = (Wk, cnt)"
    by (cases "StandardExpand_sboxes P (StandardExpand_Wk (PHI P) K) 0 ?n") blast
  have "length Wk = length (StandardExpand_Wk (PHI P) K)"
    using length_StandardExpand_sboxes[of P "StandardExpand_Wk (PHI P) K" 0 ?n]
    unfolding c by simp
  then show ?thesis
    unfolding StandardExpand_def Let_def c by (simp add: length_StandardExpand_Wk[OF assms])
qed

lemma length_SecureExpand:
  "length (m_expKey (SecureExpand hkdf s d K)) = 4 * (m_rndCount s + 1)"
  by (simp add: SecureExpand_def Let_def)

lemma SHX_new_legal_standard:
  assumes "SHX_new None r = Inr s"
  shows "Contains (LegalKeySizes s) n \<longleftrightarrow> n \<in> {16, 24, 32, 64}"
  unfolding SHX_new_standard[OF assms] by (auto simp: LegalKeySizes_def Contains_def)

text \<open>
  After \<open>Initialize\<close> the expanded key holds \<open>4 * (Rounds + 1)\<close> words, with \<open>Rounds\<close> a
  positive multiple of eight; it does not depend on the direction.
\<close>

lemma Initialize_expKey:
  assumes n: "SHX_new Digest r = Inr s"
    and i: "Initialize P hkdf s Encryption KeyParams = Inr s'"
  shows "\<exists>m. 0 < m \<and> m \<le> 8 \<and> length (m_expKey s') = 32 * m + 4"
    and "m_expKey s' = m_expKey (ExpandKey P hkdf
            (if length (sk_Info KeyParams) > 0 then s\<lparr>m_kdfInfo := sk_Info KeyParams\<rparr> else s)
            (sk_Key KeyParams))"
    and "m_isEncryption s' = Encryption"
proof -
  let ?K = "sk_Key KeyParams"
  let ?s1 = "if length (sk_Info KeyParams) > 0 then s\<lparr>m_kdfInfo := sk_Info KeyParams\<rparr> else s"
  let ?s2 = "?s1\<lparr>m_isEncryption := Encryption, m_cprKeySize := length ?K * 8\<rparr>"
  have legal: "Contains (m_legalKeySizes s) (length ?K)"
    and s': "s' = (ExpandKey P hkdf ?s2 ?K)\<lparr>m_isInitialized := True\<rparr>"
    using i by (auto simp: Initialize_def Let_def split: if_splits)
  note f = SHX_new_fields[OF n]
  have eng: "m_kdfEngine ?s2 = Digest" and rc: "m_rndCount ?s2 = r" using f by auto
  show "\<exists>m. 0 < m \<and> m \<le> 8 \<and> length (m_expKey s') = 32 * m + 4"
  proof (cases Digest)
    case None
    have "length ?K \<in> {16, 24, 32, 64}"
      using legal SHX_new_legal_standard[of r s "length ?K"] n None
      by (simp add: LegalKeySizes_def)
    from length_StandardExpand[OF this, of P ?s2]
    have "length (m_expKey s') = 32 * (if length ?K = 64 then 5 else 4) + 4"
      using eng None by (simp add: s' ExpandKey_def)
    then show ?thesis by (intro exI[of _ "if length ?K = 64 then 5 else 4"]) simp
  next
    case (Some d)
    have "r \<in> {32, 40, 48, 56, 64}" by (rule f(6))
    then have "4 * (r + 1) = 32 * (r div 8) + 4 \<and> 0 < r div 8 \<and> r div 8 \<le> 8" by auto
    moreover have "length (m_expKey s') = 4 * (r + 1)"
      using eng rc Some by (simp add: s' ExpandKey_def length_SecureExpand)
    ultimately show ?thesis by (intro exI[of _ "r div 8"]) simp
  qed
  show "m_isEncryption s' = Encryption"
  proof (cases Digest)
    case None
    obtain ek where "\<And>t. StandardExpand P t ?K =
            t\<lparr>m_rndCount := (if length ?K = 64 then 40 else 32), m_expKey := ek\<rparr>"
      using StandardExpand_shape[of P ?K] by blast
    then show ?thesis using eng None by (simp add: s' ExpandKey_def)
  next
    case (Some d)
    then show ?thesis using eng by (simp add: s' ExpandKey_def SecureExpand_def Let_def)
  qed
  show "m_expKey s' = m_expKey (ExpandKey P hkdf ?s1 ?K)"
  proof (cases Digest)
    case None
    obtain ek where "\<And>t. StandardExpand P t ?K =
            t\<lparr>m_rndCount := (if length ?K = 64 then 40 else 32), m_expKey := ek\<rparr>"
      using StandardExpand_shape[of P ?K] by blast
    then show ?thesis using f(2) None by (simp add: s' ExpandKey_def)
  next
    case (Some d)
    then show ?thesis using f(2) by (simp add: s' ExpandKey_def SecureExpand_def Let_def)
  qed
qed

lemma Initialize_succeeds:
  assumes "Contains (LegalKeySizes s) (length (sk_Key KeyParams))"
    and "m_kdfEngine s \<noteq> None \<longrightarrow> length (sk_Info KeyParams) \<le> m_kdfInfoMax s"
  shows "\<exists>s'. Initialize P hkdf s Encryption KeyParams = Inr s'"
  using assms by (auto simp: Initialize_def LegalKeySizes_def Let_def)

lemma EncryptBlock_eq:
  assumes "length Plain = 16" and "length Out = 16"
  shows "EncryptBlock P s Plain Out =
           and_then (Encrypt128_words P (m_expKey s) (block_words Plain)) (\<lambda>C. Inr (block_bytes C))"
  using assms by (simp add: EncryptBlock_def Encrypt128_eq LoadBlock_eq store_def)

lemma DecryptBlock_eq:
  assumes "length Cipher = 16" and "length Out = 16"
  shows "DecryptBlock P s Cipher Out =
           and_then (Decrypt128_words P (m_expKey s) (block_words Cipher)) (\<lambda>C. Inr (block_bytes C))"
  using assms by (simp add: DecryptBlock_def Decrypt128_eq LoadBlock_eq store_def)

text \<open>
  Claim C1.  For every key of a legal size (and, with a digest, an info within
  \<open>DistributionCodeMax\<close>) and every block of 16 bytes: an instance initialized for
  encryption turns the block into a ciphertext block, and an instance initialized for
  decryption with the same key material turns that back into the block.  The S-boxes
  and the linear transform are parameters, required to be undone by their inverses.
\<close>

theorem SHX_decrypt_encrypt:
  assumes "Serpent_inverse P"
    and "SHX_new Digest r = Inr s"
    and "Contains (LegalKeySizes s) (length (sk_Key KeyParams))"
    and "Digest \<noteq> None \<longrightarrow> length (sk_Info KeyParams) \<le> m_kdfInfoMax s"
    and "length Plain = 16" and "length Out1 = 16" and "length Out2 = 16"
  shows "\<exists>se sd Cipher.
           Initialize P hkdf s True KeyParams = Inr se
         \<and> Initialize P hkdf s False KeyParams = Inr sd
         \<and> EncryptBlock P se Plain Out1 = Inr Cipher
         \<and> Transform P se Plain 0 Out1 0 = Inr Cipher
         \<and> length Cipher = 16
         \<and> DecryptBlock P sd Cipher Out2 = Inr Plain
         \<and> Transform P sd Cipher 0 Out2 0 = Inr Plain"
proof -
  have eng: "m_kdfEngine s = Digest" by (rule SHX_new_fields(2)[OF assms(2)])
  obtain se where se: "Initialize P hkdf s True KeyParams = Inr se"
    using Initialize_succeeds[OF assms(3)] assms(4) eng by blast
  obtain sd where sd: "Initialize P hkdf s False KeyParams = Inr sd"
    using Initialize_succeeds[OF assms(3)] assms(4) eng by blast
  note e = Initialize_expKey[OF assms(2) se] and d = Initialize_expKey[OF assms(2) sd]
  let ?k = "m_expKey se"
  have k: "m_expKey sd = ?k" using e(2) d(2) by simp
  obtain m where m: "0 < m" "m \<le> 8" "length ?k = 32 * m + 4" using e(1) by blast
  have small: "length ?k < 2 ^ 64" using m by simp
  obtain C where C: "Encrypt128_words P ?k (block_words Plain) = Inr C"
    using Encrypt128_words_succeeds[OF m(3) m(1) small] by blast
  have enc: "EncryptBlock P se Plain Out1 = Inr (block_bytes C)"
    by (simp add: EncryptBlock_eq[OF assms(5,6)] C)
  have "Decrypt128_words P ?k C = Inr (block_words Plain)"
    by (rule Decrypt128_words_Encrypt128_words[OF assms(1) small C])
  then have dec: "DecryptBlock P sd (block_bytes C) Out2 = Inr Plain"
    using assms(7) by (simp add: DecryptBlock_eq k block_bytes_block_words[OF assms(5)])
  have "Transform P se Plain 0 Out1 0 = Inr (block_bytes C)"
    using enc e(3) by (simp add: Transform_def EncryptBlock_def)
  moreover have "Transform P sd (block_bytes C) 0 Out2 0 = Inr Plain"
    using dec d(3) by (simp add: Transform_def DecryptBlock_def)
  ultimately show ?thesis using se sd enc dec by simp
qed

theorem SHX_decrypt_encrypt_witness:
  "Serpent_inverse Serpent_published
   \<and> SHX_new None 32 = Inr (projr (SHX_new None 32))
   \<and> Contains (LegalKeySizes (projr (SHX_new None 32)))
        (length (sk_Key \<lparr>sk_Key = replicate 32 0, sk_Nonce = [], sk_Info = []\<rparr>))
   \<and> length (replicate 16 (0 :: byte)) = 16
   \<and> (\<exists>se sd Cipher.
           Initialize Serpent_published toy_hkdf (projr (SHX_new None 32)) True
             \<lparr>sk_Key = replicate 32 0, sk_Nonce = [], sk_Info = []\<rparr> = Inr se
         \<and> Initialize Serpent_published toy_hkdf (projr (SHX_new None 32)) False
             \<lparr>sk_Key = replicate 32 0, sk_Nonce = [], sk_Info = []\<rparr> = Inr sd
         \<and> EncryptBlock Serpent_published se (replicate 16 0) (replicate 16 0) = Inr Cipher
         \<and> DecryptBlock Serpent_published sd Cipher (replicate 16 0) = Inr (replicate 16 0))"
proof -
  have a: "SHX_new None 32 = Inr (projr (SHX_new None 32))" by (simp add: SHX_new_def)
  have b: "Contains (LegalKeySizes (projr (SHX_new None 32)))
        (length (sk_Key \<lparr>sk_Key = replicate 32 0, sk_Nonce = [], sk_Info = []\<rparr>))"
    by (simp add: SHX_new_legal_standard[OF a])
  have c: "(None :: IDigest option) \<noteq> None \<longrightarrow>
      length (sk_Info \<lparr>sk_Key = replicate 32 0, sk_Nonce = [], sk_Info = []\<rparr>)
        \<le> m_kdfInfoMax (projr (SHX_new None 32))"
    by simp
  have l: "length (replicate 16 (0 :: byte)) = 16" by simp
  from SHX_decrypt_encrypt[OF Serpent_published_inverse a b c l l l, of toy_hkdf]
  show ?thesis using Serpent_published_inverse a b l by blast
qed

lemma Decrypt128_loop_succeeds:
  assumes "32 \<le> c" and "c mod 32 = 0" and "c \<le> length k"
  shows "\<exists>R'. Decrypt128_loop P k c R = Inr (4, R')"
  using assms
proof (induction P k c R rule: Decrypt128_loop.induct)
  case (1 P k c R)
  have g: "\<not> (c < 28 \<or> length k < c)" using "1.prems" by simp
  show ?case
  proof (cases "c - 28 \<noteq> 4")
    case True
    have "32 dvd c" using "1.prems"(2) by (simp add: dvd_eq_mod_eq_0)
    then obtain q where q: "c = 32 * q" by (auto simp: dvd_def)
    have "q \<noteq> 0" "q \<noteq> 1" using q True "1.prems"(1) by auto
    then have "2 \<le> q" by simp
    then have a: "32 \<le> c - 28 - 4" using q by simp
    have "c - 28 - 4 = 32 * (q - 1)" using q by simp
    then have b: "(c - 28 - 4) mod 32 = 0" by simp
    have c4: "\<not> c - 28 < 4" using a by simp
    have l: "c - 28 - 4 \<le> length k" using "1.prems"(3) by simp
    from "1.IH"[OF g refl refl True c4 a b l]
    obtain R' where
      "Decrypt128_loop P k (c - 28 - 4)
         (InverseTransform P (AddKey k (c - 28 - 4) (Decrypt128_pass P k c R))) = Inr (4, R')"
      by blast
    then have "Decrypt128_loop P k c R = Inr (4, R')"
      using g True c4 by (subst Decrypt128_loop.simps) (simp add: Let_def)
    then show ?thesis by (rule exI)
  next
    case False
    then have "Decrypt128_loop P k c R = Inr (4, Decrypt128_pass P k c R)"
      using g by (subst Decrypt128_loop.simps) (simp add: Let_def)
    then show ?thesis by (rule exI)
  qed
qed

lemma Decrypt128_words_succeeds:
  assumes "length k = 32 * m + 4" and "0 < m"
  shows "\<exists>C. Decrypt128_words P k R = Inr C"
proof -
  have "\<exists>R'. Decrypt128_loop P k (32 * m) (AddKey k (32 * m) R) = Inr (4, R')"
    using assms by (intro Decrypt128_loop_succeeds) simp_all
  then obtain R' where "Decrypt128_loop P k (32 * m) (AddKey k (32 * m) R) = Inr (4, R')"
    by blast
  then have "Decrypt128_words P k R = Inr (AddKey k 0 R')"
    unfolding Decrypt128_words_def using assms(1) by simp
  then show ?thesis by (rule exI)
qed

lemma Transform_succeeds:
  assumes "length (m_expKey s) = 32 * m + 4" and "0 < m" and "m \<le> 8"
    and "InOffset + 16 \<le> length Input" and "OutOffset + 16 \<le> length Output"
  shows "\<exists>Output'. Transform P s Input InOffset Output OutOffset = Inr Output'
            \<and> length Output' = length Output"
proof -
  have small: "length (m_expKey s) < 2 ^ 64" using assms(1,3) by simp
  obtain C where "Transform_words P s (block_words (take 16 (drop InOffset Input))) = Inr C"
    using Encrypt128_words_succeeds[OF assms(1,2) small] Decrypt128_words_succeeds[OF assms(1,2)]
    unfolding Transform_words_def by (cases "m_isEncryption s") (simp_all, blast+)
  then have "Transform P s Input InOffset Output OutOffset =
      Inr (take OutOffset Output @ block_bytes C @ drop (OutOffset + 16) Output)"
    using assms(4,5) by (simp add: Transform_eq LoadBlock_eq store_def)
  then show ?thesis using assms(5) by simp
qed

lemma Transform_blocks_succeeds:
  assumes "length (m_expKey s) = 32 * m + 4" and "0 < m" and "m \<le> 8"
    and "InOffset + 16 * n \<le> length Input" and "OutOffset + 16 * n \<le> length Output"
  shows "\<exists>Output'. Transform_blocks P s Input InOffset Output OutOffset n = Inr Output'
            \<and> length Output' = length Output"
  using assms(4,5)
proof (induction n)
  case 0
  then show ?case by simp
next
  case (Suc n)
  then obtain Out1 where
    b: "Transform_blocks P s Input InOffset Output OutOffset n = Inr Out1"
    and l: "length Out1 = length Output"
    by auto
  have "\<exists>Output'. Transform P s Input (InOffset + 16 * n) Out1 (OutOffset + 16 * n) = Inr Output'
            \<and> length Output' = length Out1"
    using Suc.prems l by (intro Transform_succeeds[OF assms(1-3)]) simp_all
  then show ?case using b l by auto
qed

section \<open>SHX: the standard key schedule\<close>

lemma StandardExpand_poly16_inv:
  assumes "16 \<le> i" and "n \<le> length W"
  shows "(\<forall>j < i. StandardExpand_poly16 phi c W i n ! j = W ! j)
       \<and> (\<forall>j. i \<le> j \<and> j < n \<longrightarrow> poly16_at phi (StandardExpand_poly16 phi c W i n) j (j - c))"
  using assms
proof (induction phi c W i n rule: StandardExpand_poly16.induct)
  case (1 phi c W i n)
  show ?case
  proof (cases "i < n")
    case False
    then have "StandardExpand_poly16 phi c W i n = W"
      by (subst StandardExpand_poly16.simps) simp
    then show ?thesis using False by auto
  next
    case True
    let ?v = "RotL32 (W ! (i - 16) XOR W ! (i - 13) XOR W ! (i - 11) XOR W ! (i - 10)
                XOR W ! (i - 8) XOR W ! (i - 5) XOR W ! (i - 3) XOR W ! (i - 1)
                XOR phi XOR of_nat (i - c)) 11"
    let ?W1 = "W[i := ?v]"
    let ?res = "StandardExpand_poly16 phi c ?W1 (i + 1) n"
    have res: "StandardExpand_poly16 phi c W i n = ?res"
      using True by (subst StandardExpand_poly16.simps) simp
    have ih: "(\<forall>j < i + 1. ?res ! j = ?W1 ! j)
        \<and> (\<forall>j. i + 1 \<le> j \<and> j < n \<longrightarrow> poly16_at phi ?res j (j - c))"
      using "1.IH"[OF True] "1.prems" by simp
    have il: "i < length W" using True "1.prems"(2) by simp
    have low: "\<And>j. j < i \<Longrightarrow> ?res ! j = W ! j" using ih by simp
    have at_i: "?res ! i = ?v" using ih il by simp
    have taps: "?res ! (i - 16) = W ! (i - 16)" "?res ! (i - 13) = W ! (i - 13)"
      "?res ! (i - 11) = W ! (i - 11)" "?res ! (i - 10) = W ! (i - 10)"
      "?res ! (i - 8) = W ! (i - 8)" "?res ! (i - 5) = W ! (i - 5)"
      "?res ! (i - 3) = W ! (i - 3)" "?res ! (i - 1) = W ! (i - 1)"
      using "1.prems"(1) by (intro low; simp)+
    have "poly16_at phi ?res i (i - c)"
      by (simp only: poly16_at_def at_i taps)
    then have "\<forall>j. i \<le> j \<and> j < n \<longrightarrow> poly16_at phi ?res j (j - c)"
      using ih by (metis Suc_eq_plus1 Suc_leI le_neq_implies_less)
    then show ?thesis unfolding res using low by simp
  qed
qed

lemma StandardExpand_poly8_inv:
  assumes "8 \<le> i" and "n \<le> length W"
  shows "(\<forall>j < i. StandardExpand_poly8 phi c W i n ! j = W ! j)
       \<and> (\<forall>j. i \<le> j \<and> j < n \<longrightarrow> poly8_at phi (StandardExpand_poly8 phi c W i n) j (j - c))"
  using assms
proof (induction phi c W i n rule: StandardExpand_poly8.induct)
  case (1 phi c W i n)
  show ?case
  proof (cases "i < n")
    case False
    then have "StandardExpand_poly8 phi c W i n = W"
      by (subst StandardExpand_poly8.simps) simp
    then show ?thesis using False by auto
  next
    case True
    let ?v = "RotL32 (W ! (i - 8) XOR W ! (i - 5) XOR W ! (i - 3) XOR W ! (i - 1)
                XOR phi XOR of_nat (i - c)) 11"
    let ?W1 = "W[i := ?v]"
    let ?res = "StandardExpand_poly8 phi c ?W1 (i + 1) n"
    have res: "StandardExpand_poly8 phi c W i n = ?res"
      using True by (subst StandardExpand_poly8.simps) simp
    have ih: "(\<forall>j < i + 1. ?res ! j = ?W1 ! j)
        \<and> (\<forall>j. i + 1 \<le> j \<and> j < n \<longrightarrow> poly8_at phi ?res j (j - c))"
      using "1.IH"[OF True] "1.prems" by simp
    have il: "i < length W" using True "1.prems"(2) by simp
    have low: "\<And>j. j < i \<Longrightarrow> ?res ! j = W ! j" using ih by simp
    have at_i: "?res ! i = ?v" using ih il by simp
    have taps: "?res ! (i - 8) = W ! (i - 8)" "?res ! (i - 5) = W ! (i - 5)"
      "?res ! (i - 3) = W ! (i - 3)" "?res ! (i - 1) = W ! (i - 1)"
      using "1.prems"(1) by (intro low; simp)+
    have "poly8_at phi ?res i (i - c)"
      by (simp only: poly8_at_def at_i taps)
    then have "\<forall>j. i \<le> j \<and> j < n \<longrightarrow> poly8_at phi ?res j (j - c)"
      using ih by (metis Suc_eq_plus1 Suc_leI le_neq_implies_less)
    then show ?thesis unfolding res using low by simp
  qed
qed


lemma StandardExpand_copy_inv:
  assumes "offset = 4 * t" and "index + t \<le> length W"
  shows "snd (StandardExpand_copy K offset index W) = index + t
    \<and> (\<forall>j < t. fst (StandardExpand_copy K offset index W) ! (index + j)
                   = BeBytesTo32 K (offset - 4 * (j + 1)))
    \<and> (\<forall>j. j < index \<or> index + t \<le> j \<longrightarrow>
           fst (StandardExpand_copy K offset index W) ! j = W ! j)"
  using assms
proof (induction K offset index W arbitrary: t rule: StandardExpand_copy.induct)
  case (1 K offset index W)
  show ?case
  proof (cases "offset > 0")
    case False
    then have "StandardExpand_copy K offset index W = (W, index)"
      by (subst StandardExpand_copy.simps) simp
    moreover have "t = 0" using False "1.prems"(1) by simp
    ultimately show ?thesis by simp
  next
    case True
    then obtain u where t: "t = Suc u" using "1.prems"(1) by (cases t) auto
    let ?W1 = "W[index := BeBytesTo32 K (offset - 4)]"
    let ?res = "StandardExpand_copy K (offset - 4) (index + 1) ?W1"
    have res: "StandardExpand_copy K offset index W = ?res"
      using True by (subst StandardExpand_copy.simps) simp
    have o: "offset - 4 = 4 * u" using "1.prems"(1) t by simp
    have l: "index + 1 + u \<le> length ?W1" using "1.prems"(2) t by simp
    note ih = "1.IH"[OF True o l]
    have a: "snd ?res = index + t" using ih t by simp
    have low: "\<And>j. j < index + 1 \<or> index + 1 + u \<le> j \<Longrightarrow> fst ?res ! j = ?W1 ! j"
      using ih by blast
    have il: "index < length W" using "1.prems"(2) t by simp
    have b: "fst ?res ! (index + j) = BeBytesTo32 K (offset - 4 * (j + 1))" if "j < t" for j
    proof (cases j)
      case 0
      then show ?thesis using low[of index] il by simp
    next
      case (Suc j')
      then have "j' < u" using that t by simp
      then have "fst ?res ! (index + 1 + j') = BeBytesTo32 K (offset - 4 - 4 * (j' + 1))"
        using ih by blast
      then show ?thesis using Suc by (simp add: algebra_simps)
    qed
    have c: "fst ?res ! j = W ! j" if "j < index \<or> index + t \<le> j" for j
      using low[of j] that t by auto
    show ?thesis unfolding res using a b c by blast
  qed
qed

lemma StandardExpand_m_expKey:
  assumes "length K \<in> {16, 24, 32, 64}"
  shows "m_expKey (StandardExpand P s K) = StandardExpand_step4 P (StandardExpand_Wk (PHI P) K)"
  by (simp add: StandardExpand_def StandardExpand_step4_def Let_def
      length_StandardExpand_Wk[OF assms] split: prod.splits)

text \<open>The prekey for the given key: the key words from the end of the key, the pad.\<close>

lemma StandardExpand_Wp_prefix:
  assumes "length K = 4 * q" and "q \<le> (if length K < 32 then 16 else length K div 2)"
  defines "padSize \<equiv> (if length K < 32 then 16 else length K div 2)"
  shows "\<exists>Wp0. length Wp0 = padSize
    \<and> (\<forall>j < q. Wp0 ! j = BeBytesTo32 K (length K - 4 * (j + 1)))
    \<and> (q < 8 \<longrightarrow> Wp0 ! q = 1)
    \<and> StandardExpand_Wp phi K =
        (if padSize = 16 then StandardExpand_poly8 phi 8 Wp0 8 16
         else StandardExpand_poly16 phi 16 Wp0 16 32)"
proof -
  let ?W0 = "replicate padSize (0 :: uint)"
  obtain Wp index where c: "StandardExpand_copy K (length K) 0 ?W0 = (Wp, index)"
    by (cases "StandardExpand_copy K (length K) 0 ?W0") blast
  have l0: "0 + q \<le> length ?W0" using assms(2) by (simp add: padSize_def)
  note inv = StandardExpand_copy_inv[OF assms(1) l0, of K, unfolded c]
  have index: "index = q" using inv by simp
  have words: "\<And>j. j < q \<Longrightarrow> Wp ! j = BeBytesTo32 K (length K - 4 * (j + 1))"
    using inv by simp
  have lw: "length Wp = padSize"
    using length_StandardExpand_copy[of K "length K" 0 ?W0] unfolding c by simp
  let ?Wp0 = "if index < 8 then Wp[index := 1] else Wp"
  have pad: "8 \<le> padSize" unfolding padSize_def by (cases "length K < 32") simp_all
  have "length ?Wp0 = padSize" using lw by simp
  moreover have "\<forall>j < q. ?Wp0 ! j = BeBytesTo32 K (length K - 4 * (j + 1))"
    using words index by simp
  moreover have "q < 8 \<longrightarrow> ?Wp0 ! q = 1" using index lw pad by simp
  moreover have "StandardExpand_Wp phi K =
        (if padSize = 16 then StandardExpand_poly8 phi 8 ?Wp0 8 16
         else StandardExpand_poly16 phi 16 ?Wp0 16 32)"
    unfolding StandardExpand_Wp_def Let_def padSize_def[symmetric] c by simp
  ultimately show ?thesis by blast
qed

lemma StandardExpand_64:
  assumes "length K = 64"
  shows "Rounds (StandardExpand P s K) = 40"
    and "length (m_expKey (StandardExpand P s K)) = 4 * (40 + 1)"
    and "m_expKey (StandardExpand P s K) = StandardExpand_step4 P (StandardExpand_Wk (PHI P) K)"
    and "length (StandardExpand_Wk (PHI P) K) = 4 * (40 + 1)"
    and "\<forall>j < 16. StandardExpand_Wp (PHI P) K ! j = BeBytesTo32 K (64 - 4 * (j + 1))"
    and "\<forall>i. 16 \<le> i \<and> i < 32 \<longrightarrow> poly16_at (PHI P) (StandardExpand_Wp (PHI P) K) i (i - 16)"
    and "\<forall>i < 16. StandardExpand_Wk (PHI P) K ! i = StandardExpand_Wp (PHI P) K ! (16 + i)"
    and "\<forall>i. 16 \<le> i \<and> i < 4 * (40 + 1) \<longrightarrow> poly16_at (PHI P) (StandardExpand_Wk (PHI P) K) i i"
proof -
  have legal: "length K \<in> {16, 24, 32, 64}" using assms by simp
  show "Rounds (StandardExpand P s K) = 40"
    using assms by (simp add: Rounds_def StandardExpand_rndCount)
  show "length (m_expKey (StandardExpand P s K)) = 4 * (40 + 1)"
    using length_StandardExpand[OF legal, of P s] assms by simp
  show "m_expKey (StandardExpand P s K) = StandardExpand_step4 P (StandardExpand_Wk (PHI P) K)"
    by (rule StandardExpand_m_expKey[OF legal])
  show "length (StandardExpand_Wk (PHI P) K) = 4 * (40 + 1)"
    using length_StandardExpand_Wk[OF legal, of "PHI P"] assms by simp
  have q: "length K = 4 * 16" using assms by simp
  obtain Wp0 where l0: "length Wp0 = 32"
    and w0: "\<forall>j < 16. Wp0 ! j = BeBytesTo32 K (length K - 4 * (j + 1))"
    and wp: "StandardExpand_Wp (PHI P) K = StandardExpand_poly16 (PHI P) 16 Wp0 16 32"
    using StandardExpand_Wp_prefix[OF q, of "PHI P"] assms by auto
  have i1: "(\<forall>j < 16. StandardExpand_poly16 (PHI P) 16 Wp0 16 32 ! j = Wp0 ! j)
       \<and> (\<forall>j. 16 \<le> j \<and> j < 32 \<longrightarrow>
             poly16_at (PHI P) (StandardExpand_poly16 (PHI P) 16 Wp0 16 32) j (j - 16))"
    by (rule StandardExpand_poly16_inv) (simp_all add: l0)
  show "\<forall>j < 16. StandardExpand_Wp (PHI P) K ! j = BeBytesTo32 K (64 - 4 * (j + 1))"
    using i1 w0 assms by (simp add: wp)
  show "\<forall>i. 16 \<le> i \<and> i < 32 \<longrightarrow> poly16_at (PHI P) (StandardExpand_Wp (PHI P) K) i (i - 16)"
    using i1 by (simp add: wp)
  let ?Wp = "StandardExpand_Wp (PHI P) K"
  let ?W = "take 16 (drop 16 ?Wp) @ drop 16 (replicate 164 (0 :: uint))"
  have lp: "length ?Wp = 32" using length_StandardExpand_Wp[of "PHI P" K] assms by simp
  have wk: "StandardExpand_Wk (PHI P) K = StandardExpand_poly16 (PHI P) 0 ?W 16 164"
    using assms by (simp add: StandardExpand_Wk_def Let_def)
  have i2: "(\<forall>j < 16. StandardExpand_poly16 (PHI P) 0 ?W 16 164 ! j = ?W ! j)
       \<and> (\<forall>j. 16 \<le> j \<and> j < 164 \<longrightarrow>
             poly16_at (PHI P) (StandardExpand_poly16 (PHI P) 0 ?W 16 164) j (j - 0))"
    by (rule StandardExpand_poly16_inv) (simp_all add: lp)
  show "\<forall>i < 16. StandardExpand_Wk (PHI P) K ! i = StandardExpand_Wp (PHI P) K ! (16 + i)"
    using i2 lp by (simp add: wk nth_append)
  show "\<forall>i. 16 \<le> i \<and> i < 4 * (40 + 1) \<longrightarrow> poly16_at (PHI P) (StandardExpand_Wk (PHI P) K) i i"
    using i2 by (simp add: wk)
qed

lemma StandardExpand_small:
  assumes "length K \<in> {16, 24, 32}"
  shows "Rounds (StandardExpand P s K) = 32"
    and "length (m_expKey (StandardExpand P s K)) = 4 * (32 + 1)"
    and "m_expKey (StandardExpand P s K) = StandardExpand_step4 P (StandardExpand_Wk (PHI P) K)"
    and "length (StandardExpand_Wk (PHI P) K) = 4 * (32 + 1)"
    and "\<forall>j < length K div 4. StandardExpand_Wp (PHI P) K ! j
            = BeBytesTo32 K (length K - 4 * (j + 1))"
    and "length K < 32 \<longrightarrow> StandardExpand_Wp (PHI P) K ! (length K div 4) = 1"
    and "\<forall>i. 8 \<le> i \<and> i < 16 \<longrightarrow> poly8_at (PHI P) (StandardExpand_Wp (PHI P) K) i (i - 8)"
    and "\<forall>i < 8. StandardExpand_Wk (PHI P) K ! i = StandardExpand_Wp (PHI P) K ! (8 + i)"
    and "\<forall>i. 8 \<le> i \<and> i < 4 * (32 + 1) \<longrightarrow> poly8_at (PHI P) (StandardExpand_Wk (PHI P) K) i i"
proof -
  have legal: "length K \<in> {16, 24, 32, 64}" using assms by auto
  have n64: "length K \<noteq> 64" using assms by auto
  have pad: "(if length K < 32 then 16 else length K div 2) = 16" using assms by auto
  show "Rounds (StandardExpand P s K) = 32"
    using n64 by (simp add: Rounds_def StandardExpand_rndCount)
  show "length (m_expKey (StandardExpand P s K)) = 4 * (32 + 1)"
    using length_StandardExpand[OF legal, of P s] n64 by simp
  show "m_expKey (StandardExpand P s K) = StandardExpand_step4 P (StandardExpand_Wk (PHI P) K)"
    by (rule StandardExpand_m_expKey[OF legal])
  show "length (StandardExpand_Wk (PHI P) K) = 4 * (32 + 1)"
    using length_StandardExpand_Wk[OF legal, of "PHI P"] n64 by simp
  have q: "length K = 4 * (length K div 4)" using assms by auto
  have q8: "length K div 4 \<le> 8" using assms by auto
  obtain Wp0 where l0: "length Wp0 = 16"
    and w0: "\<forall>j < length K div 4. Wp0 ! j = BeBytesTo32 K (length K - 4 * (j + 1))"
    and w1: "length K div 4 < 8 \<longrightarrow> Wp0 ! (length K div 4) = 1"
    and wp: "StandardExpand_Wp (PHI P) K = StandardExpand_poly8 (PHI P) 8 Wp0 8 16"
    using StandardExpand_Wp_prefix[OF q, of "PHI P"] q8 unfolding pad by auto
  have i1: "(\<forall>j < 8. StandardExpand_poly8 (PHI P) 8 Wp0 8 16 ! j = Wp0 ! j)
       \<and> (\<forall>j. 8 \<le> j \<and> j < 16 \<longrightarrow>
             poly8_at (PHI P) (StandardExpand_poly8 (PHI P) 8 Wp0 8 16) j (j - 8))"
    by (rule StandardExpand_poly8_inv) (simp_all add: l0)
  show "\<forall>j < length K div 4. StandardExpand_Wp (PHI P) K ! j
            = BeBytesTo32 K (length K - 4 * (j + 1))"
    using i1 w0 q8 by (simp add: wp)
  show "length K < 32 \<longrightarrow> StandardExpand_Wp (PHI P) K ! (length K div 4) = 1"
    using i1 w1 assms by (auto simp: wp)
  show "\<forall>i. 8 \<le> i \<and> i < 16 \<longrightarrow> poly8_at (PHI P) (StandardExpand_Wp (PHI P) K) i (i - 8)"
    using i1 by (simp add: wp)
  let ?Wp = "StandardExpand_Wp (PHI P) K"
  let ?W = "take 8 (drop 8 ?Wp) @ drop 8 (replicate 132 (0 :: uint))"
  have lp: "length ?Wp = 16" using length_StandardExpand_Wp[of "PHI P" K] pad by simp
  have wk: "StandardExpand_Wk (PHI P) K = StandardExpand_poly8 (PHI P) 0 ?W 8 132"
    using n64 pad by (simp add: StandardExpand_Wk_def Let_def)
  have i2: "(\<forall>j < 8. StandardExpand_poly8 (PHI P) 0 ?W 8 132 ! j = ?W ! j)
       \<and> (\<forall>j. 8 \<le> j \<and> j < 132 \<longrightarrow>
             poly8_at (PHI P) (StandardExpand_poly8 (PHI P) 0 ?W 8 132) j (j - 0))"
    by (rule StandardExpand_poly8_inv) (simp_all add: lp)
  show "\<forall>i < 8. StandardExpand_Wk (PHI P) K ! i = StandardExpand_Wp (PHI P) K ! (8 + i)"
    using i2 lp by (simp add: wk nth_append)
  show "\<forall>i. 8 \<le> i \<and> i < 4 * (32 + 1) \<longrightarrow> poly8_at (PHI P) (StandardExpand_Wk (PHI P) K) i i"
    using i2 by (simp add: wk)
qed


text \<open>
  Claim C4.  In standard mode \<open>Initialize\<close> with a legal key succeeds, and the expanded
  key is the S-box pass over the working key \<open>Wk\<close>.  With a 64-byte key the round count
  is 40 and the expanded key has \<open>4 * (40 + 1)\<close> words; the sixteen key words fill the
  prekey, and every later word of the prekey and of the working key is the exclusive or
  of the words at distances 16, 13, 11, 10, 8, 5, 3 and 1, of \<open>PHI\<close> and of the counter,
  rotated left by 11.  With a key of 16, 24 or 32 bytes the round count is 32, the
  expanded key has \<open>4 * (32 + 1)\<close> words, a shorter key is padded with the word 1, and the
  words come from the distances 8, 5, 3 and 1.
\<close>

theorem SHX_standard_key_schedule:
  fixes P :: Serpent and KeyParams :: SymmetricKey
  defines "K \<equiv> sk_Key KeyParams"
  defines "Wp \<equiv> StandardExpand_Wp (PHI P) (sk_Key KeyParams)"
  defines "Wk \<equiv> StandardExpand_Wk (PHI P) (sk_Key KeyParams)"
  assumes "SHX_new None r = Inr s" and "length K \<in> {16, 24, 32, 64}"
  shows "\<exists>s'. Initialize P hkdf s Encryption KeyParams = Inr s'
    \<and> m_expKey s' = StandardExpand_step4 P Wk
    \<and> length (m_expKey s') = 4 * (Rounds s' + 1)
    \<and> length Wk = 4 * (Rounds s' + 1)
    \<and> (if length K = 64
        then Rounds s' = 40
          \<and> (\<forall>j < 16. Wp ! j = BeBytesTo32 K (64 - 4 * (j + 1)))
          \<and> (\<forall>i. 16 \<le> i \<and> i < 32 \<longrightarrow> poly16_at (PHI P) Wp i (i - 16))
          \<and> (\<forall>i < 16. Wk ! i = Wp ! (16 + i))
          \<and> (\<forall>i. 16 \<le> i \<and> i < 4 * (40 + 1) \<longrightarrow> poly16_at (PHI P) Wk i i)
        else Rounds s' = 32
          \<and> (\<forall>j < length K div 4. Wp ! j = BeBytesTo32 K (length K - 4 * (j + 1)))
          \<and> (length K < 32 \<longrightarrow> Wp ! (length K div 4) = 1)
          \<and> (\<forall>i. 8 \<le> i \<and> i < 16 \<longrightarrow> poly8_at (PHI P) Wp i (i - 8))
          \<and> (\<forall>i < 8. Wk ! i = Wp ! (8 + i))
          \<and> (\<forall>i. 8 \<le> i \<and> i < 4 * (32 + 1) \<longrightarrow> poly8_at (PHI P) Wk i i))"
proof -
  note st = SHX_new_standard[OF assms(4)]
  have legal: "Contains (LegalKeySizes s) (length (sk_Key KeyParams))"
    using SHX_new_legal_standard[OF assms(4)] assms(5) by (simp add: K_def)
  have eng: "m_kdfEngine s = None" by (subst st) simp
  obtain s' where i: "Initialize P hkdf s Encryption KeyParams = Inr s'"
    using Initialize_succeeds[OF legal, of P hkdf Encryption] eng by auto
  let ?s1 = "if length (sk_Info KeyParams) > 0 then s\<lparr>m_kdfInfo := sk_Info KeyParams\<rparr> else s"
  let ?s2 = "?s1\<lparr>m_isEncryption := Encryption, m_cprKeySize := length K * 8\<rparr>"
  have s': "s' = (StandardExpand P ?s2 K)\<lparr>m_isInitialized := True\<rparr>"
    using i legal eng
    by (simp add: Initialize_def LegalKeySizes_def ExpandKey_def Let_def K_def split: if_splits)
  have ek: "m_expKey s' = m_expKey (StandardExpand P ?s2 K)"
    and rn: "Rounds s' = Rounds (StandardExpand P ?s2 K)"
    by (simp_all add: s' Rounds_def)
  show ?thesis
  proof (cases "length K = 64")
    case True
    note f = StandardExpand_64(1-3)[OF True, of P ?s2] StandardExpand_64(4-8)[OF True, of P]
    have "m_expKey s' = StandardExpand_step4 P Wk" unfolding ek Wk_def K_def[symmetric] by (rule f(3))
    moreover have "Rounds s' = 40" unfolding rn by (rule f(1))
    moreover have "length (m_expKey s') = 4 * (40 + 1)" unfolding ek by (rule f(2))
    moreover have "length Wk = 4 * (40 + 1)" unfolding Wk_def K_def[symmetric] by (rule f(4))
    moreover note f(5-8)[folded Wp_def[unfolded K_def[symmetric]] Wk_def[unfolded K_def[symmetric]]]
    ultimately show ?thesis using i True by simp
  next
    case False
    then have small: "length K \<in> {16, 24, 32}" using assms(5) by auto
    note f = StandardExpand_small(1-3)[OF small, of P ?s2] StandardExpand_small(4-9)[OF small, of P]
    have "m_expKey s' = StandardExpand_step4 P Wk" unfolding ek Wk_def K_def[symmetric] by (rule f(3))
    moreover have "Rounds s' = 32" unfolding rn by (rule f(1))
    moreover have "length (m_expKey s') = 4 * (32 + 1)" unfolding ek by (rule f(2))
    moreover have "length Wk = 4 * (32 + 1)" unfolding Wk_def K_def[symmetric] by (rule f(4))
    moreover note f(5-9)[folded Wp_def[unfolded K_def[symmetric]] Wk_def[unfolded K_def[symmetric]]]
    ultimately show ?thesis using i False by simp
  qed
qed

theorem SHX_standard_key_schedule_witness:
  "SHX_new None 32 = Inr (projr (SHX_new None 32))
   \<and> length (replicate 64 (0 :: byte)) \<in> {16, 24, 32, 64}
   \<and> length (replicate 16 (0 :: byte)) \<in> {16, 24, 32, 64}
   \<and> Rounds (projr (Initialize Serpent_published toy_hkdf (projr (SHX_new None 32)) True
         \<lparr>sk_Key = replicate 64 0, sk_Nonce = [], sk_Info = []\<rparr>)) = 40
   \<and> length (m_expKey (projr (Initialize Serpent_published toy_hkdf (projr (SHX_new None 32)) True
         \<lparr>sk_Key = replicate 64 0, sk_Nonce = [], sk_Info = []\<rparr>))) = 164
   \<and> StandardExpand_Wp (PHI Serpent_published) (replicate 64 0) ! 15
         = BeBytesTo32 (replicate 64 0) 0
   \<and> poly16_at (PHI Serpent_published)
         (StandardExpand_Wp (PHI Serpent_published) (replicate 64 0)) 16 0
   \<and> poly16_at (PHI Serpent_published)
         (StandardExpand_Wk (PHI Serpent_published) (replicate 64 0)) 163 163
   \<and> Rounds (projr (Initialize Serpent_published toy_hkdf (projr (SHX_new None 32)) True
         \<lparr>sk_Key = replicate 16 0, sk_Nonce = [], sk_Info = []\<rparr>)) = 32
   \<and> length (m_expKey (projr (Initialize Serpent_published toy_hkdf (projr (SHX_new None 32)) True
         \<lparr>sk_Key = replicate 16 0, sk_Nonce = [], sk_Info = []\<rparr>))) = 132
   \<and> StandardExpand_Wp (PHI Serpent_published) (replicate 16 0) ! 3
         = BeBytesTo32 (replicate 16 0) 0
   \<and> StandardExpand_Wp (PHI Serpent_published) (replicate 16 0) ! 4 = 1
   \<and> poly8_at (PHI Serpent_published)
         (StandardExpand_Wp (PHI Serpent_published) (replicate 16 0)) 8 0
   \<and> poly8_at (PHI Serpent_published)
         (StandardExpand_Wk (PHI Serpent_published) (replicate 16 0)) 131 131"
proof -
  have a: "SHX_new None 32 = Inr (projr (SHX_new None 32))"
    by (simp add: SHX_new_def)
  have l64: "length (sk_Key \<lparr>sk_Key = replicate 64 (0 :: byte), sk_Nonce = [], sk_Info = []\<rparr>)
               \<in> {16, 24, 32, 64}"
    and l16: "length (sk_Key \<lparr>sk_Key = replicate 16 (0 :: byte), sk_Nonce = [], sk_Info = []\<rparr>)
               \<in> {16, 24, 32, 64}"
    by simp_all
  note t64 = SHX_standard_key_schedule[OF a l64, of Serpent_published toy_hkdf True]
    and t16 = SHX_standard_key_schedule[OF a l16, of Serpent_published toy_hkdf True]
  have "(15 :: nat) < 16" "(16 :: nat) \<le> 16 \<and> (16 :: nat) < 32"
    "(16 :: nat) \<le> 163 \<and> (163 :: nat) < 4 * (40 + 1)"
    "(3 :: nat) < 16 div 4" "(8 :: nat) \<le> 8 \<and> (8 :: nat) < 16"
    "(8 :: nat) \<le> 131 \<and> (131 :: nat) < 4 * (32 + 1)"
    by simp_all
  with t64 t16 a show ?thesis
    by (auto simp del: replicate.simps)
qed

section \<open>SHX: the bulk transforms\<close>

subsection \<open>Lanes\<close>

lemma quads_of_lanes_of [simp]: "quads_of (lanes_of qs) = qs"
  by (induction qs) (auto simp: quads_of_def lanes_of_def)

lemma lanewise_lanes_of: "lanewise f (lanes_of qs) = lanes_of (map f qs)"
  by (simp add: lanewise_def)

lemma AddKeyW_lanes_of: "AddKeyW k c (lanes_of qs) = lanes_of (map (AddKey k c) qs)"
  by (induction qs)
    (auto simp: AddKeyW_def lanes_of_def AddKey_def simd_xor_def broadcast_def)

lemma SHXEncryptW_pass_lanes_of:
  "SHXEncryptW_pass P k c (lanes_of qs) = lanes_of (map (Encrypt128_pass P k c) qs)"
  unfolding SHXEncryptW_pass_def Let_def AddKeyW_lanes_of lanewise_lanes_of map_map
  by (rule arg_cong[where f = lanes_of], rule map_cong[OF refl])
    (simp add: Encrypt128_pass_def Let_def)

lemma SHXDecryptW_pass_lanes_of:
  "SHXDecryptW_pass P k c (lanes_of qs) = lanes_of (map (Decrypt128_pass P k c) qs)"
  unfolding SHXDecryptW_pass_def Let_def AddKeyW_lanes_of lanewise_lanes_of map_map
  by (rule arg_cong[where f = lanes_of], rule map_cong[OF refl])
    (simp add: Decrypt128_pass_def Let_def)

text \<open>
  The loop on SIMD words ends as the scalar loop does on any block, and in each lane
  with the state of the scalar loop on the block of that lane.
\<close>

lemma SHXEncryptW_loop_lanes_of:
  "SHXEncryptW_loop P k N c (lanes_of qs) =
     (case Encrypt128_loop P k N c q0 of
        Inl e \<Rightarrow> Inl e
      | Inr (keyCtr, R) \<Rightarrow>
          Inr (keyCtr, lanes_of (map (\<lambda>q. snd (projr (Encrypt128_loop P k N c q))) qs)))"
proof (induction "length k - c" arbitrary: c qs q0 rule: less_induct)
  case less
  show ?case
  proof (cases "length k < c + 32")
    case True
    then show ?thesis
      by (subst SHXEncryptW_loop.simps, subst Encrypt128_loop.simps) simp
  next
    case False
    show ?thesis
    proof (cases "c + 32 \<noteq> N")
      case True
      have s: "\<And>q. Encrypt128_loop P k N c q =
          Encrypt128_loop P k N (c + 32) (LinearTransform P (Encrypt128_pass P k c q))"
        using False True by (subst Encrypt128_loop.simps) (simp add: Let_def)
      have "SHXEncryptW_loop P k N c (lanes_of qs) =
          SHXEncryptW_loop P k N (c + 32)
            (lanes_of (map (\<lambda>q. LinearTransform P (Encrypt128_pass P k c q)) qs))"
        using False True
        by (subst SHXEncryptW_loop.simps)
          (simp add: Let_def SHXEncryptW_pass_lanes_of lanewise_lanes_of comp_def)
      also have "\<dots> = (case Encrypt128_loop P k N (c + 32)
                              (LinearTransform P (Encrypt128_pass P k c q0)) of
            Inl e \<Rightarrow> Inl e
          | Inr (keyCtr, R) \<Rightarrow>
              Inr (keyCtr, lanes_of (map (\<lambda>q. snd (projr (Encrypt128_loop P k N (c + 32) q)))
                       (map (\<lambda>q. LinearTransform P (Encrypt128_pass P k c q)) qs))))"
        using False by (intro less) simp
      finally show ?thesis by (simp add: s comp_def cong: sum.case_cong prod.case_cong)
    next
      case eq: False
      have s: "\<And>q. Encrypt128_loop P k N c q = Inr (c + 32, Encrypt128_pass P k c q)"
        using False eq by (subst Encrypt128_loop.simps) (simp add: Let_def)
      show ?thesis
        using False eq
        by (subst SHXEncryptW_loop.simps) (simp add: Let_def SHXEncryptW_pass_lanes_of s)
    qed
  qed
qed

lemma SHXDecryptW_loop_lanes_of:
  "SHXDecryptW_loop P k c (lanes_of qs) =
     (case Decrypt128_loop P k c q0 of
        Inl e \<Rightarrow> Inl e
      | Inr (keyCtr, R) \<Rightarrow>
          Inr (keyCtr, lanes_of (map (\<lambda>q. snd (projr (Decrypt128_loop P k c q))) qs)))"
proof (induction c arbitrary: qs q0 rule: less_induct)
  case (less c)
  show ?case
  proof (cases "c < 28 \<or> length k < c")
    case True
    then show ?thesis
      by (subst SHXDecryptW_loop.simps, subst Decrypt128_loop.simps) simp
  next
    case False
    show ?thesis
    proof (cases "c - 28 \<noteq> 4")
      case True
      show ?thesis
      proof (cases "c - 28 < 4")
        case lt: True
        then show ?thesis
          using False True
          by (subst SHXDecryptW_loop.simps, subst Decrypt128_loop.simps) (simp add: Let_def)
      next
        case ge: False
        let ?f = "\<lambda>q. InverseTransform P (AddKey k (c - 28 - 4) (Decrypt128_pass P k c q))"
        have s: "\<And>q. Decrypt128_loop P k c q = Decrypt128_loop P k (c - 28 - 4) (?f q)"
          using False True ge by (subst Decrypt128_loop.simps) (simp add: Let_def)
        have "SHXDecryptW_loop P k c (lanes_of qs) =
            SHXDecryptW_loop P k (c - 28 - 4) (lanes_of (map ?f qs))"
          using False True ge
          by (subst SHXDecryptW_loop.simps)
            (simp add: Let_def SHXDecryptW_pass_lanes_of lanewise_lanes_of AddKeyW_lanes_of
              comp_def)
        also have "\<dots> = (case Decrypt128_loop P k (c - 28 - 4) (?f q0) of
              Inl e \<Rightarrow> Inl e
            | Inr (keyCtr, R) \<Rightarrow>
                Inr (keyCtr, lanes_of (map (\<lambda>q. snd (projr (Decrypt128_loop P k (c - 28 - 4) q)))
                         (map ?f qs))))"
          using False by (intro less) simp
        finally show ?thesis by (simp add: s comp_def cong: sum.case_cong prod.case_cong)
      qed
    next
      case eq: False
      have s: "\<And>q. Decrypt128_loop P k c q = Inr (c - 28, Decrypt128_pass P k c q)"
        using False eq by (subst Decrypt128_loop.simps) (simp add: Let_def)
      show ?thesis
        using False eq
        by (subst SHXDecryptW_loop.simps) (simp add: Let_def SHXDecryptW_pass_lanes_of s)
    qed
  qed
qed


subsection \<open>The scalar cipher fails on the key alone\<close>

lemma Encrypt128_loop_control:
  "\<exists>r. (r = Inl OutOfRange \<or> (\<exists>n. r = Inr n))
     \<and> (\<forall>R. map_sum id fst (Encrypt128_loop P k N c R) = r)"
proof (induction "length k - c" arbitrary: c rule: less_induct)
  case less
  show ?case
  proof (cases "length k < c + 32")
    case True
    then have "\<forall>R. map_sum id fst (Encrypt128_loop P k N c R) = Inl OutOfRange"
      by (subst Encrypt128_loop.simps) simp
    then show ?thesis by blast
  next
    case False
    show ?thesis
    proof (cases "c + 32 \<noteq> N")
      case True
      have s: "\<And>q. Encrypt128_loop P k N c q =
          Encrypt128_loop P k N (c + 32) (LinearTransform P (Encrypt128_pass P k c q))"
        using False True by (subst Encrypt128_loop.simps) (simp add: Let_def)
      have "\<exists>r. (r = Inl OutOfRange \<or> (\<exists>n. r = Inr n))
          \<and> (\<forall>R. map_sum id fst (Encrypt128_loop P k N (c + 32) R) = r)"
        using False by (intro less) simp
      then show ?thesis unfolding s by blast
    next
      case eq: False
      have "\<forall>R. map_sum id fst (Encrypt128_loop P k N c R) = Inr (c + 32)"
        using False eq by (subst Encrypt128_loop.simps) (simp add: Let_def)
      then show ?thesis by blast
    qed
  qed
qed

lemma Decrypt128_loop_control:
  "\<exists>r. (r = Inl OutOfRange \<or> (\<exists>n. r = Inr n))
     \<and> (\<forall>R. map_sum id fst (Decrypt128_loop P k c R) = r)"
proof (induction c rule: less_induct)
  case (less c)
  show ?case
  proof (cases "c < 28 \<or> length k < c")
    case True
    then have "\<forall>R. map_sum id fst (Decrypt128_loop P k c R) = Inl OutOfRange"
      by (subst Decrypt128_loop.simps) simp
    then show ?thesis by blast
  next
    case False
    show ?thesis
    proof (cases "c - 28 \<noteq> 4")
      case True
      show ?thesis
      proof (cases "c - 28 < 4")
        case lt: True
        have "\<forall>R. map_sum id fst (Decrypt128_loop P k c R) = Inl OutOfRange"
          using False True lt by (subst Decrypt128_loop.simps) (simp add: Let_def)
        then show ?thesis by blast
      next
        case ge: False
        have s: "\<And>q. Decrypt128_loop P k c q = Decrypt128_loop P k (c - 28 - 4)
              (InverseTransform P (AddKey k (c - 28 - 4) (Decrypt128_pass P k c q)))"
          using False True ge by (subst Decrypt128_loop.simps) (simp add: Let_def)
        have "\<exists>r. (r = Inl OutOfRange \<or> (\<exists>n. r = Inr n))
            \<and> (\<forall>R. map_sum id fst (Decrypt128_loop P k (c - 28 - 4) R) = r)"
          using False by (intro less) simp
        then show ?thesis unfolding s by blast
      qed
    next
      case eq: False
      have "\<forall>R. map_sum id fst (Decrypt128_loop P k c R) = Inr (c - 28)"
        using False eq by (subst Decrypt128_loop.simps) (simp add: Let_def)
      then show ?thesis by blast
    qed
  qed
qed


lemma Encrypt128_words_control:
  "(\<forall>R. \<exists>C. Encrypt128_words P k R = Inr C) \<or> (\<forall>R. Encrypt128_words P k R = Inl OutOfRange)"
proof -
  let ?N = "size_t_sub (length k) 4"
  obtain r where r: "r = Inl OutOfRange \<or> (\<exists>n. r = Inr n)"
    and c: "\<And>R. map_sum id fst (Encrypt128_loop P k ?N 0 R) = r"
    using Encrypt128_loop_control[of P k ?N 0] by blast
  from r show ?thesis
  proof
    assume "r = Inl OutOfRange"
    then have e: "r = Inl OutOfRange" .
    have "\<And>R. Encrypt128_loop P k ?N 0 R = Inl OutOfRange"
    proof -
      fix R
      from c[of R] e show "Encrypt128_loop P k ?N 0 R = Inl OutOfRange"
        by (cases "Encrypt128_loop P k ?N 0 R") auto
    qed
    then show ?thesis by (simp add: Encrypt128_words_def)
  next
    assume "\<exists>n. r = Inr n"
    then obtain n where n: "r = Inr n" by blast
    have l: "\<And>R. \<exists>R'. Encrypt128_loop P k ?N 0 R = Inr (n, R')"
    proof -
      fix R
      from c[of R] n show "\<exists>R'. Encrypt128_loop P k ?N 0 R = Inr (n, R')"
        by (cases "Encrypt128_loop P k ?N 0 R") auto
    qed
    show ?thesis
    proof (cases "length k < n + 4")
      case True
      have "\<And>R. Encrypt128_words P k R = Inl OutOfRange"
      proof -
        fix R
        from l[of R] obtain R' where "Encrypt128_loop P k ?N 0 R = Inr (n, R')" by blast
        then show "Encrypt128_words P k R = Inl OutOfRange"
          using True by (simp add: Encrypt128_words_def)
      qed
      then show ?thesis by blast
    next
      case False
      have "\<And>R. \<exists>C. Encrypt128_words P k R = Inr C"
      proof -
        fix R
        from l[of R] obtain R' where "Encrypt128_loop P k ?N 0 R = Inr (n, R')" by blast
        then have "Encrypt128_words P k R = Inr (AddKey k n R')"
          using False by (simp add: Encrypt128_words_def)
        then show "\<exists>C. Encrypt128_words P k R = Inr C" by (rule exI)
      qed
      then show ?thesis by blast
    qed
  qed
qed

lemma Decrypt128_words_control:
  "(\<forall>R. \<exists>C. Decrypt128_words P k R = Inr C) \<or> (\<forall>R. Decrypt128_words P k R = Inl OutOfRange)"
proof (cases "length k < 4")
  case True
  then show ?thesis by (simp add: Decrypt128_words_def)
next
  case False
  obtain r where r: "r = Inl OutOfRange \<or> (\<exists>n. r = Inr n)"
    and c: "\<And>R. map_sum id fst (Decrypt128_loop P k (length k - 4) R) = r"
    using Decrypt128_loop_control[of P k "length k - 4"] by blast
  from r show ?thesis
  proof
    assume e: "r = Inl OutOfRange"
    have "\<And>R. Decrypt128_loop P k (length k - 4) R = Inl OutOfRange"
    proof -
      fix R
      from c[of R] e show "Decrypt128_loop P k (length k - 4) R = Inl OutOfRange"
        by (cases "Decrypt128_loop P k (length k - 4) R") auto
    qed
    then show ?thesis using False by (simp add: Decrypt128_words_def)
  next
    assume "\<exists>n. r = Inr n"
    then obtain n where n: "r = Inr n" by blast
    have "\<And>R. \<exists>C. Decrypt128_words P k R = Inr C"
    proof -
      fix R
      from c[of "AddKey k (length k - 4) R"] n
      obtain R' where "Decrypt128_loop P k (length k - 4) (AddKey k (length k - 4) R) = Inr (n, R')"
        by (cases "Decrypt128_loop P k (length k - 4) (AddKey k (length k - 4) R)") auto
      then have "Decrypt128_words P k R = Inr (AddKey k (n - 4) R')"
        using False by (simp add: Decrypt128_words_def)
      then show "\<exists>C. Decrypt128_words P k R = Inr C" by (rule exI)
    qed
    then show ?thesis by blast
  qed
qed

lemma Transform_words_control:
  "(\<forall>R. \<exists>C. Transform_words P s R = Inr C) \<or> (\<forall>R. Transform_words P s R = Inl OutOfRange)"
  using Encrypt128_words_control[of P "m_expKey s"] Decrypt128_words_control[of P "m_expKey s"]
  by (cases "m_isEncryption s") (simp_all add: Transform_words_def)

subsection \<open>The bulk functions on blocks\<close>

lemma Encrypt128_loop_same_counter:
  assumes "Encrypt128_loop P k N c q0 = Inr (n, R0)"
  shows "Encrypt128_loop P k N c q = Inr (n, snd (projr (Encrypt128_loop P k N c q)))"
proof -
  obtain r where c: "\<And>R. map_sum id fst (Encrypt128_loop P k N c R) = r"
    using Encrypt128_loop_control[of P k N c] by blast
  from c[of q0] assms have "r = Inr n" by simp
  with c[of q] show ?thesis by (cases "Encrypt128_loop P k N c q") auto
qed

lemma Decrypt128_loop_same_counter:
  assumes "Decrypt128_loop P k c q0 = Inr (n, R0)"
  shows "Decrypt128_loop P k c q = Inr (n, snd (projr (Decrypt128_loop P k c q)))"
proof -
  obtain r where c: "\<And>R. map_sum id fst (Decrypt128_loop P k c R) = r"
    using Decrypt128_loop_control[of P k c] by blast
  from c[of q0] assms have "r = Inr n" by simp
  with c[of q] show ?thesis by (cases "Decrypt128_loop P k c q") auto
qed

lemma SHXEncryptW_words:
  "SHXEncryptW n P Input InOffset Output OutOffset k =
     (if InOffset + 16 * n \<le> length Input
      then (case Encrypt128_words P k q0 of
              Inl e \<Rightarrow> Inl e
            | Inr C0 \<Rightarrow>
                store (concat (map (\<lambda>j. block_bytes (projr (Encrypt128_words P k
                         (block_words (take 16 (drop (InOffset + 16 * j) Input)))))) [0..<n]))
                  Output OutOffset)
      else Inl OutOfRange)"
proof (cases "InOffset + 16 * n \<le> length Input")
  case False
  then show ?thesis by (simp add: SHXEncryptW_def LoadW_def Let_def)
next
  case True
  let ?N = "size_t_sub (length k) 4"
  let ?blk = "\<lambda>j. block_words (take 16 (drop (InOffset + 16 * j) Input))"
  let ?L = "\<lambda>q. Encrypt128_loop P k ?N 0 q"
  have w: "SHXEncryptW n P Input InOffset Output OutOffset k =
      (case ?L q0 of
         Inl e \<Rightarrow> Inl e
       | Inr (keyCtr, R) \<Rightarrow>
           if length k < keyCtr + 4 then Inl OutOfRange
           else store (concat (map (\<lambda>j. block_bytes (AddKey k keyCtr (snd (projr (?L (?blk j))))))
                          [0..<n])) Output OutOffset)"
    using True
    by (simp add: SHXEncryptW_def LoadW_def Let_def SHXEncryptW_loop_lanes_of[where ?q0.0 = q0]
        StoreW_def AddKeyW_lanes_of comp_def split: sum.splits prod.splits)
  show ?thesis
  proof (cases "?L q0")
    case (Inl e)
    then show ?thesis using True by (simp add: w Encrypt128_words_def)
  next
    case (Inr p)
    obtain kc R0 where p: "p = (kc, R0)" by (cases p)
    note l0 = Inr[unfolded p]
    note same = Encrypt128_loop_same_counter[OF l0]
    show ?thesis
    proof (cases "length k < kc + 4")
      case lt: True
      then show ?thesis using True by (simp add: w l0 Encrypt128_words_def)
    next
      case ge: False
      have e: "\<And>q. Encrypt128_words P k q = Inr (AddKey k kc (snd (projr (?L q))))"
      proof -
        fix q
        show "Encrypt128_words P k q = Inr (AddKey k kc (snd (projr (?L q))))"
          unfolding Encrypt128_words_def by (subst same[of q]) (simp add: ge)
      qed
      show ?thesis using True ge by (simp add: w l0 e)
    qed
  qed
qed

lemma SHXDecryptW_words:
  "SHXDecryptW n P Input InOffset Output OutOffset k =
     (if InOffset + 16 * n \<le> length Input
      then (case Decrypt128_words P k q0 of
              Inl e \<Rightarrow> Inl e
            | Inr C0 \<Rightarrow>
                store (concat (map (\<lambda>j. block_bytes (projr (Decrypt128_words P k
                         (block_words (take 16 (drop (InOffset + 16 * j) Input)))))) [0..<n]))
                  Output OutOffset)
      else Inl OutOfRange)"
proof (cases "InOffset + 16 * n \<le> length Input")
  case False
  then show ?thesis by (simp add: SHXDecryptW_def LoadW_def Let_def)
next
  case True
  let ?blk = "\<lambda>j. block_words (take 16 (drop (InOffset + 16 * j) Input))"
  show ?thesis
  proof (cases "length k < 4")
    case lt: True
    then show ?thesis using True
      by (simp add: SHXDecryptW_def LoadW_def Let_def Decrypt128_words_def)
  next
    case ge: False
    let ?c = "length k - 4"
    let ?L = "\<lambda>q. Decrypt128_loop P k ?c (AddKey k ?c q)"
    have w: "SHXDecryptW n P Input InOffset Output OutOffset k =
        (case ?L q0 of
           Inl e \<Rightarrow> Inl e
         | Inr (keyCtr, R) \<Rightarrow>
             store (concat (map (\<lambda>j. block_bytes (AddKey k (keyCtr - 4) (snd (projr (?L (?blk j))))))
                            [0..<n])) Output OutOffset)"
      using True ge
      by (simp add: SHXDecryptW_def LoadW_def Let_def AddKeyW_lanes_of
          SHXDecryptW_loop_lanes_of[where ?q0.0 = "AddKey k (length k - 4) q0"]
          StoreW_def comp_def split: sum.splits prod.splits)
    show ?thesis
    proof (cases "?L q0")
      case (Inl e)
      then show ?thesis using True ge by (simp add: w Decrypt128_words_def)
    next
      case (Inr p)
      obtain kc R0 where p: "p = (kc, R0)" by (cases p)
      note l0 = Inr[unfolded p]
      note same = Decrypt128_loop_same_counter[OF l0]
      have e: "\<And>q. Decrypt128_words P k q = Inr (AddKey k (kc - 4) (snd (projr (?L q))))"
      proof -
        fix q
        show "Decrypt128_words P k q = Inr (AddKey k (kc - 4) (snd (projr (?L q))))"
          unfolding Decrypt128_words_def using ge
          by (subst same[of "AddKey k (length k - 4) q"]) simp
      qed
      show ?thesis using True by (simp add: w l0 e)
    qed
  qed
qed

lemma and_then_Inr [simp]: "and_then r Inr = r"
  by (cases r) auto

lemma store_append:
  "and_then (store a Output OutOffset) (\<lambda>Output. store bs Output (OutOffset + length a))
     = store (a @ bs) Output OutOffset"
  by (auto simp: store_def add.assoc add.commute add.left_commute)

lemma store_Inl: "store bs Output OutOffset = Inl e \<Longrightarrow> e = OutOfRange"
  by (simp add: store_def split: if_splits)

lemma length_concat_block_bytes [simp]:
  "length (concat (map (\<lambda>j. block_bytes (f j)) [0..<n])) = 16 * n"
  by (induction n) simp_all

text \<open>
  The sequence of scalar calls on \<open>n + 1\<close> blocks: it fails when the input does not
  hold the blocks or the key does not fit the rounds, and stores the transformed blocks
  in one run otherwise.
\<close>

lemma Transform_blocks_words:
  "Transform_blocks P s Input InOffset Output OutOffset (Suc n) =
     (if InOffset + 16 * Suc n \<le> length Input
      then (case Transform_words P s q0 of
              Inl e \<Rightarrow> Inl e
            | Inr C0 \<Rightarrow>
                store (concat (map (\<lambda>j. block_bytes (projr (Transform_words P s
                         (block_words (take 16 (drop (InOffset + 16 * j) Input)))))) [0..<Suc n]))
                  Output OutOffset)
      else Inl OutOfRange)"
proof (induction n)
  case 0
  let ?q = "block_words (take 16 (drop InOffset Input))"
  from Transform_words_control[of P s] show ?case
  proof
    assume "\<forall>R. \<exists>C. Transform_words P s R = Inr C"
    then obtain C C0 where "Transform_words P s ?q = Inr C" "Transform_words P s q0 = Inr C0"
      by blast
    then show ?thesis by (simp add: Transform_eq LoadBlock_eq)
  next
    assume "\<forall>R. Transform_words P s R = Inl OutOfRange"
    then have "Transform_words P s ?q = Inl OutOfRange" "Transform_words P s q0 = Inl OutOfRange"
      by blast+
    then show ?thesis by (simp add: Transform_eq LoadBlock_eq)
  qed
next
  case (Suc n)
  let ?blk = "\<lambda>j. block_words (take 16 (drop (InOffset + 16 * j) Input))"
  let ?bs = "\<lambda>n. concat (map (\<lambda>j. block_bytes (projr (Transform_words P s (?blk j)))) [0..<n])"
  have step: "Transform_blocks P s Input InOffset Output OutOffset (Suc (Suc n)) =
      and_then (Transform_blocks P s Input InOffset Output OutOffset (Suc n))
        (\<lambda>Output. Transform P s Input (InOffset + 16 * Suc n) Output (OutOffset + 16 * Suc n))"
    by simp
  from Transform_words_control[of P s] show ?case
  proof
    assume good: "\<forall>R. \<exists>C. Transform_words P s R = Inr C"
    then obtain C0 where c0: "Transform_words P s q0 = Inr C0" by blast
    show ?thesis
    proof (cases "InOffset + 16 * Suc (Suc n) \<le> length Input")
      case True
      then have r: "InOffset + 16 * Suc n \<le> length Input" by simp
      obtain C where cq: "Transform_words P s (?blk (Suc n)) = Inr C" using good by blast
      have t: "\<And>Out. Transform P s Input (InOffset + 16 * Suc n) Out (OutOffset + 16 * Suc n)
          = store (block_bytes C) Out (OutOffset + length (?bs (Suc n)))"
        using True cq
        by (subst Transform_eq, subst LoadBlock_eq, subst length_concat_block_bytes)
          (simp add: add.assoc)
      have "Transform_blocks P s Input InOffset Output OutOffset (Suc (Suc n)) =
          and_then (store (?bs (Suc n)) Output OutOffset)
            (\<lambda>Output. store (block_bytes C) Output (OutOffset + length (?bs (Suc n))))"
        by (simp only: step Suc.IH t r if_True c0 sum.case)
      then have "Transform_blocks P s Input InOffset Output OutOffset (Suc (Suc n)) =
          store (?bs (Suc n) @ block_bytes C) Output OutOffset"
        by (simp only: store_append)
      then show ?thesis using True cq by (simp add: c0)
    next
      case False
      have t: "\<And>Out. Transform P s Input (InOffset + 16 * Suc n) Out (OutOffset + 16 * Suc n)
          = Inl OutOfRange"
        using False by (subst Transform_eq, subst LoadBlock_eq) (simp add: add.assoc)
      have "Transform_blocks P s Input InOffset Output OutOffset (Suc (Suc n)) = Inl OutOfRange"
        unfolding step Suc.IH t
        by (auto simp: c0 store_def)
      then show ?thesis using False by simp
    qed
  next
    assume "\<forall>R. Transform_words P s R = Inl OutOfRange"
    then have bad: "Transform_words P s q0 = Inl OutOfRange" by blast
    have "Transform_blocks P s Input InOffset Output OutOffset (Suc (Suc n)) = Inl OutOfRange"
      unfolding step Suc.IH by (simp add: bad)
    then show ?thesis by (simp add: bad)
  qed
qed

lemma Transform_blocks_add:
  "Transform_blocks P s Input InOffset Output OutOffset (a + b) =
     and_then (Transform_blocks P s Input InOffset Output OutOffset a)
       (\<lambda>Output. Transform_blocks P s Input (InOffset + 16 * a) Output (OutOffset + 16 * a) b)"
  by (induction b) (simp_all add: and_then_assoc distrib_left add.assoc)

text \<open>A call of the template on \<open>n + 1\<close> lanes does what \<open>n + 1\<close> scalar calls do.\<close>

lemma SHXEncryptW_blocks:
  assumes "m_isEncryption s"
  shows "SHXEncryptW (Suc n) P Input InOffset Output OutOffset (m_expKey s)
    = Transform_blocks P s Input InOffset Output OutOffset (Suc n)"
proof -
  have "Transform_words P s = Encrypt128_words P (m_expKey s)"
    using assms by (rule_tac ext) (simp add: Transform_words_def)
  then show ?thesis
    by (simp only: SHXEncryptW_words[where ?q0.0 = "(0, 0, 0, 0)"]
        Transform_blocks_words[where ?q0.0 = "(0, 0, 0, 0)"])
qed

lemma SHXDecryptW_blocks:
  assumes "\<not> m_isEncryption s"
  shows "SHXDecryptW (Suc n) P Input InOffset Output OutOffset (m_expKey s)
    = Transform_blocks P s Input InOffset Output OutOffset (Suc n)"
proof -
  have "Transform_words P s = Decrypt128_words P (m_expKey s)"
    using assms by (rule_tac ext) (simp add: Transform_words_def)
  then show ?thesis
    by (simp only: SHXDecryptW_words[where ?q0.0 = "(0, 0, 0, 0)"]
        Transform_blocks_words[where ?q0.0 = "(0, 0, 0, 0)"])
qed

subsection \<open>The sixteen blocks of \<open>Transform2048\<close>\<close>

lemma Encrypt2048_eq_blocks:
  assumes "m_isEncryption s"
  shows "Encrypt2048 B P s Input InOffset Output OutOffset
     = Transform_blocks P s Input InOffset Output OutOffset 16"
proof -
  note w = SHXEncryptW_blocks[OF assms, of _ P Input]
  have w16: "\<And>i Out j. SHXEncryptW 16 P Input i Out j (m_expKey s)
      = Transform_blocks P s Input i Out j 16"
    using w[of 15] by simp
  have w8: "\<And>i Out j. SHXEncryptW 8 P Input i Out j (m_expKey s)
      = Transform_blocks P s Input i Out j 8"
    using w[of 7] by simp
  have w4: "\<And>i Out j. SHXEncryptW 4 P Input i Out j (m_expKey s)
      = Transform_blocks P s Input i Out j 4"
    using w[of 3] by simp
  have t: "\<And>i out j. Transform P s Input i out j = Encrypt128 P s Input i out j"
    using assms by (simp add: Transform_def)
  have a8: "Transform_blocks P s Input InOffset Output OutOffset 16 =
      and_then (Transform_blocks P s Input InOffset Output OutOffset 8)
        (\<lambda>Output. Transform_blocks P s Input (InOffset + 128) Output (OutOffset + 128) 8)"
    using Transform_blocks_add[of P s Input InOffset Output OutOffset 8 8] by simp
  have a4: "Transform_blocks P s Input InOffset Output OutOffset 16 =
      and_then (Transform_blocks P s Input InOffset Output OutOffset 4) (\<lambda>Output.
      and_then (Transform_blocks P s Input (InOffset + 64) Output (OutOffset + 64) 4) (\<lambda>Output.
      and_then (Transform_blocks P s Input (InOffset + 128) Output (OutOffset + 128) 4) (\<lambda>Output.
      Transform_blocks P s Input (InOffset + 192) Output (OutOffset + 192) 4)))"
    using Transform_blocks_add[of P s Input InOffset Output OutOffset 12 4]
      Transform_blocks_add[of P s Input InOffset Output OutOffset 8 4]
      Transform_blocks_add[of P s Input InOffset Output OutOffset 4 4]
    by (simp add: and_then_assoc)
  consider "AVX512 B" | "\<not> AVX512 B" "AVX2 B" | "\<not> AVX512 B" "\<not> AVX2 B" "AVX B"
    | "\<not> AVX512 B" "\<not> AVX2 B" "\<not> AVX B"
    by blast
  then show ?thesis
  proof cases
    case 1
    then show ?thesis by (simp add: Encrypt2048_def UInt512_def w16)
  next
    case 2
    then show ?thesis by (simp add: Encrypt2048_def UInt256_def w8 a8)
  next
    case 3
    then show ?thesis by (simp add: Encrypt2048_def UInt128_def w4 a4)
  next
    case 4
    then show ?thesis
      by (simp add: Encrypt2048_def Transform_blocks_numeral t and_then_assoc)
  qed
qed

lemma Decrypt2048_eq_blocks:
  assumes "\<not> m_isEncryption s"
  shows "Decrypt2048 B P s Input InOffset Output OutOffset
     = Transform_blocks P s Input InOffset Output OutOffset 16"
proof -
  note w = SHXDecryptW_blocks[OF assms, of _ P Input]
  have w16: "\<And>i Out j. SHXDecryptW 16 P Input i Out j (m_expKey s)
      = Transform_blocks P s Input i Out j 16"
    using w[of 15] by simp
  have w8: "\<And>i Out j. SHXDecryptW 8 P Input i Out j (m_expKey s)
      = Transform_blocks P s Input i Out j 8"
    using w[of 7] by simp
  have w4: "\<And>i Out j. SHXDecryptW 4 P Input i Out j (m_expKey s)
      = Transform_blocks P s Input i Out j 4"
    using w[of 3] by simp
  have t: "\<And>i out j. Transform P s Input i out j = Decrypt128 P s Input i out j"
    using assms by (simp add: Transform_def)
  have a8: "Transform_blocks P s Input InOffset Output OutOffset 16 =
      and_then (Transform_blocks P s Input InOffset Output OutOffset 8)
        (\<lambda>Output. Transform_blocks P s Input (InOffset + 128) Output (OutOffset + 128) 8)"
    using Transform_blocks_add[of P s Input InOffset Output OutOffset 8 8] by simp
  have a4: "Transform_blocks P s Input InOffset Output OutOffset 16 =
      and_then (Transform_blocks P s Input InOffset Output OutOffset 4) (\<lambda>Output.
      and_then (Transform_blocks P s Input (InOffset + 64) Output (OutOffset + 64) 4) (\<lambda>Output.
      and_then (Transform_blocks P s Input (InOffset + 128) Output (OutOffset + 128) 4) (\<lambda>Output.
      Transform_blocks P s Input (InOffset + 192) Output (OutOffset + 192) 4)))"
    using Transform_blocks_add[of P s Input InOffset Output OutOffset 12 4]
      Transform_blocks_add[of P s Input InOffset Output OutOffset 8 4]
      Transform_blocks_add[of P s Input InOffset Output OutOffset 4 4]
    by (simp add: and_then_assoc)
  consider "AVX512 B" | "\<not> AVX512 B" "AVX2 B" | "\<not> AVX512 B" "\<not> AVX2 B" "AVX B"
    | "\<not> AVX512 B" "\<not> AVX2 B" "\<not> AVX B"
    by blast
  then show ?thesis
  proof cases
    case 1
    then show ?thesis by (simp add: Decrypt2048_def UInt512_def w16)
  next
    case 2
    then show ?thesis by (simp add: Decrypt2048_def UInt256_def w8 a8)
  next
    case 3
    then show ?thesis by (simp add: Decrypt2048_def UInt128_def w4 a4)
  next
    case 4
    then show ?thesis
      by (simp add: Decrypt2048_def Transform_blocks_numeral t and_then_assoc)
  qed
qed

lemma Transform2048_eq_blocks:
  "Transform2048 B P s Input InOffset Output OutOffset
     = Transform_blocks P s Input InOffset Output OutOffset 16"
  by (simp add: Transform2048_def Encrypt2048_eq_blocks Decrypt2048_eq_blocks)

text \<open>
  Claim C2.  In every build, with the SIMD templates on sixteen, eight or four lanes as
  in the scalar build, \<open>Transform2048\<close> does what the sequence of sixteen scalar
  \<open>Transform\<close> calls at the offsets \<open>16 * i\<close> does; when it returns, every block of the
  output is the transform of the corresponding block of the input taken on its own,
  and nothing else of the output vector has changed.  On an initialized instance it
  returns whenever input and output hold sixteen blocks at their offsets.
\<close>

theorem Transform2048_scalar_blocks:
  "Transform2048 B P s Input InOffset Output OutOffset
     = Transform_blocks P s Input InOffset Output OutOffset 16
   \<and> (\<forall>Output'. Transform2048 B P s Input InOffset Output OutOffset = Inr Output' \<longrightarrow>
         length Output' = length Output
         \<and> InOffset + 256 \<le> length Input \<and> OutOffset + 256 \<le> length Output
         \<and> take OutOffset Output' = take OutOffset Output
         \<and> drop (OutOffset + 256) Output' = drop (OutOffset + 256) Output
         \<and> (\<forall>i < 16. Transform P s (take 16 (drop (InOffset + 16 * i) Input)) 0 (replicate 16 0) 0
                       = Inr (take 16 (drop (OutOffset + 16 * i) Output'))))
   \<and> (SHX_new Digest r = Inr s0 \<and> Initialize P hkdf s0 Encryption KeyParams = Inr s
        \<and> InOffset + 256 \<le> length Input \<and> OutOffset + 256 \<le> length Output \<longrightarrow>
      (\<exists>Output'. Transform2048 B P s Input InOffset Output OutOffset = Inr Output'))"
proof (intro conjI allI impI; (elim conjE)?)
  show "Transform2048 B P s Input InOffset Output OutOffset
     = Transform_blocks P s Input InOffset Output OutOffset 16"
    by (rule Transform2048_eq_blocks)
next
  fix Output'
  assume "Transform2048 B P s Input InOffset Output OutOffset = Inr Output'"
  then have b: "Transform_blocks P s Input InOffset Output OutOffset 16 = Inr Output'"
    by (simp only: Transform2048_eq_blocks)
  note r = Transform_blocks_Inr[OF b]
  show "length Output' = length Output" using r by simp
  show "InOffset + 256 \<le> length Input" using r by simp
  show "OutOffset + 256 \<le> length Output" using r by simp
  show "take OutOffset Output' = take OutOffset Output" using r by simp
  show "drop (OutOffset + 256) Output' = drop (OutOffset + 256) Output" using r by simp
  fix i :: nat
  assume "i < 16"
  then show "Transform P s (take 16 (drop (InOffset + 16 * i) Input)) 0 (replicate 16 0) 0
                       = Inr (take 16 (drop (OutOffset + 16 * i) Output'))"
    using r by simp
next
  assume n: "SHX_new Digest r = Inr s0" and i: "Initialize P hkdf s0 Encryption KeyParams = Inr s"
    and io: "InOffset + 256 \<le> length Input" and oo: "OutOffset + 256 \<le> length Output"
  obtain m where m: "0 < m" "m \<le> 8" "length (m_expKey s) = 32 * m + 4"
    using Initialize_expKey(1)[OF n i] by blast
  have "\<exists>Output'. Transform_blocks P s Input InOffset Output OutOffset 16 = Inr Output'
            \<and> length Output' = length Output"
    using io oo by (intro Transform_blocks_succeeds[OF m(3) m(1) m(2)]) simp_all
  then show "\<exists>Output'. Transform2048 B P s Input InOffset Output OutOffset = Inr Output'"
    by (auto simp: Transform2048_eq_blocks)
qed

theorem Transform2048_scalar_blocks_witness:
  "SHX_new None 32 = Inr (projr (SHX_new None 32))
   \<and> Initialize Serpent_published toy_hkdf (projr (SHX_new None 32)) True
        \<lparr>sk_Key = replicate 16 0, sk_Nonce = [], sk_Info = []\<rparr>
       = Inr (projr (Initialize Serpent_published toy_hkdf (projr (SHX_new None 32)) True
                \<lparr>sk_Key = replicate 16 0, sk_Nonce = [], sk_Info = []\<rparr>))
   \<and> (0 :: nat) + 256 \<le> length (replicate 256 (0 :: byte))
   \<and> (\<exists>Output'.
         Transform2048 \<lparr>AVX512 = False, AVX2 = True, AVX = True\<rparr> Serpent_published
           (projr (Initialize Serpent_published toy_hkdf (projr (SHX_new None 32)) True
                \<lparr>sk_Key = replicate 16 0, sk_Nonce = [], sk_Info = []\<rparr>))
           (replicate 256 0) 0 (replicate 256 0) 0 = Inr Output'
         \<and> length Output' = 256
         \<and> Transform Serpent_published
             (projr (Initialize Serpent_published toy_hkdf (projr (SHX_new None 32)) True
                \<lparr>sk_Key = replicate 16 0, sk_Nonce = [], sk_Info = []\<rparr>))
             (take 16 (drop (0 + 16 * 3) (replicate 256 0))) 0 (replicate 16 0) 0
           = Inr (take 16 (drop (0 + 16 * 3) Output')))"
proof -
  let ?kp = "\<lparr>sk_Key = replicate 16 0, sk_Nonce = [], sk_Info = []\<rparr>"
  let ?fresh = "projr (SHX_new None 32)"
  let ?st = "projr (Initialize Serpent_published toy_hkdf ?fresh True ?kp)"
  have a: "SHX_new None 32 = Inr ?fresh" by (simp add: SHX_new_def)
  have "Contains (LegalKeySizes ?fresh) (length (sk_Key ?kp))"
    by (simp add: SHX_new_legal_standard[OF a])
  moreover have "m_kdfEngine ?fresh = None" by (rule SHX_new_fields(2)[OF a])
  ultimately obtain s' where "Initialize Serpent_published toy_hkdf ?fresh True ?kp = Inr s'"
    using Initialize_succeeds[of ?fresh ?kp Serpent_published toy_hkdf True] by auto
  then have b: "Initialize Serpent_published toy_hkdf ?fresh True ?kp = Inr ?st" by simp
  have l: "(0 :: nat) + 256 \<le> length (replicate 256 (0 :: byte))" by simp
  note t = Transform2048_scalar_blocks[where B = "\<lparr>AVX512 = False, AVX2 = True, AVX = True\<rparr>"
      and P = Serpent_published and s = ?st
      and Input = "replicate 256 0" and InOffset = 0 and Output = "replicate 256 0"
      and OutOffset = 0 and Digest = None and r = 32 and ?s0.0 = ?fresh and hkdf = toy_hkdf
      and Encryption = True and KeyParams = ?kp]
  from t a b l obtain Output' where
    o: "Transform2048 \<lparr>AVX512 = False, AVX2 = True, AVX = True\<rparr> Serpent_published ?st (replicate 256 0) 0 (replicate 256 0) 0 = Inr Output'"
    by blast
  with t have "length Output' = length (replicate 256 (0 :: byte))"
    and "\<forall>i < 16. Transform Serpent_published ?st
            (take 16 (drop (0 + 16 * i) (replicate 256 0))) 0 (replicate 16 0) 0
          = Inr (take 16 (drop (0 + 16 * i) Output'))"
    by blast+
  then have "length Output' = 256"
    and "(3 :: nat) < 16 \<longrightarrow> Transform Serpent_published ?st
            (take 16 (drop (0 + 16 * 3) (replicate 256 0))) 0 (replicate 16 0) 0
          = Inr (take 16 (drop (0 + 16 * 3) Output'))"
    by (simp, blast)
  with a b l o show ?thesis by auto
qed

end
